theory Spec2Isabelle
  imports Main
begin

section \<open>JavaScript values\<close>

text \<open>
  The module \<^verbatim>\<open>SqlLab/reducers/getInitialState.ts\<close> merges the state sent by the
  server with the state an older version of SQL Lab left in the browser's
  \<^verbatim>\<open>localStorage\<close>. The second source is the result of \<^verbatim>\<open>JSON.parse\<close> behind an
  unchecked type cast, so the code works on values whose shape nothing guarantees. They
  are modelled as the values JSON text denotes, with \<^verbatim>\<open>undefined\<close> added because reading
  a missing property yields it.

  Numbers are restricted to integers (the code only prints, compares and tests them).
  An object is the list of its own enumerable properties. A term \<open>JObj kvs\<close> stands for the
  object obtained by defining the properties \<open>kvs\<close> from left to right, which is how both an
  object literal and \<^verbatim>\<open>JSON.parse\<close> build one; \<open>literal\<close> below computes its properties in
  the order JavaScript enumerates them.
\<close>

datatype jsval =
    JUndefined
  | JNull
  | JBool bool
  | JNum int
  | JStr string
  | JArr "jsval list"
  | JObj "(string \<times> jsval) list"

datatype error = SyntaxError | TypeError

type_synonym obj = "(string \<times> jsval) list"

text \<open>Truthiness, as tested by \<^verbatim>\<open>||\<close>, \<^verbatim>\<open>&&\<close>, \<^verbatim>\<open>?:\<close> and \<^verbatim>\<open>Boolean(...)\<close>.\<close>

fun truthy :: "jsval \<Rightarrow> bool" where
  "truthy JUndefined = False"
| "truthy JNull = False"
| "truthy (JBool b) = b"
| "truthy (JNum n) = (n \<noteq> 0)"
| "truthy (JStr s) = (s \<noteq> [])"
| "truthy (JArr xs) = True"
| "truthy (JObj kvs) = True"

fun nullish :: "jsval \<Rightarrow> bool" where
  "nullish JUndefined = True"
| "nullish JNull = True"
| "nullish v = False"

text \<open>
  Strict equality \<^verbatim>\<open>===\<close>, which is also the membership test of a \<^verbatim>\<open>Set\<close> on these
  values. Objects and arrays are compared by identity; every comparison in the module is
  between two different places of the parsed data, hence between two different objects.
\<close>

fun strict_eq :: "jsval \<Rightarrow> jsval \<Rightarrow> bool" where
  "strict_eq JUndefined JUndefined = True"
| "strict_eq JNull JNull = True"
| "strict_eq (JBool a) (JBool b) = (a = b)"
| "strict_eq (JNum a) (JNum b) = (a = b)"
| "strict_eq (JStr a) (JStr b) = (a = b)"
| "strict_eq v w = False"

subsection \<open>Numbers as property keys\<close>

definition digit_char :: "nat \<Rightarrow> char" where
  "digit_char d = char_of (48 + d)"

fun dec :: "nat \<Rightarrow> string" where
  "dec n = (if n < 10 then [digit_char n] else dec (n div 10) @ [digit_char (n mod 10)])"

declare dec.simps [simp del]

text \<open>\<^verbatim>\<open>id.toString()\<close> of an integer, and the property key a number is converted to.\<close>

definition Number_toString :: "int \<Rightarrow> string" where
  "Number_toString i = (if i < 0 then CHR ''-'' # dec (nat (- i)) else dec (nat i))"

definition digit_val :: "char \<Rightarrow> nat" where
  "digit_val c = of_char c - 48"

definition str_val :: "string \<Rightarrow> nat" where
  "str_val s = foldl (\<lambda>a c. 10 * a + digit_val c) 0 s"

text \<open>
  A property key is an array index when it is the decimal rendering of an integer from
  \<open>0\<close> to \<open>2\<^sup>3\<^sup>2 - 2\<close>. Such keys are enumerated first, in ascending numeric order; all
  other keys follow in the order in which they were first defined.
\<close>

definition array_index :: "string \<Rightarrow> nat option" where
  "array_index k = (let n = str_val k in if dec n = k \<and> n < 4294967295 then Some n else None)"

definition goes_before :: "string \<Rightarrow> string \<Rightarrow> bool" where
  "goes_before k k' =
     (case array_index k of
        None \<Rightarrow> False
      | Some i \<Rightarrow> (case array_index k' of None \<Rightarrow> True | Some j \<Rightarrow> i < j))"

subsection \<open>Objects\<close>

text \<open>
  \<open>put k v m\<close> defines property \<open>k\<close> of \<open>m\<close>: an existing property keeps its place, a new
  array index is placed among the array indices, any other new key goes last. On a
  property list in enumeration order the result is again in enumeration order, so that
  \<^verbatim>\<open>{...m, [k]: v}\<close> is \<open>put k v\<close> of the copy of \<open>m\<close>.
\<close>

fun put :: "string \<Rightarrow> jsval \<Rightarrow> obj \<Rightarrow> obj" where
  "put k v [] = [(k, v)]"
| "put k v ((k', v') # ps) =
     (if k' = k then (k, v) # ps
      else if goes_before k k' then (k, v) # (k', v') # ps
      else (k', v') # put k v ps)"

definition literal :: "(string \<times> jsval) list \<Rightarrow> obj" where
  "literal kvs = foldl (\<lambda>m (k, v). put k v m) [] kvs"

definition indexed :: "jsval list \<Rightarrow> obj" where
  "indexed xs = zip (map dec [0..<length xs]) xs"

text \<open>
  The own enumerable properties of a value, in enumeration order: what an object spread
  \<^verbatim>\<open>{...v}\<close> copies and \<^verbatim>\<open>Object.values(v)\<close> lists. An array has its elements, a string
  its characters, the other primitives nothing.
\<close>

fun own_entries :: "jsval \<Rightarrow> obj" where
  "own_entries (JObj kvs) = literal kvs"
| "own_entries (JArr xs) = indexed xs"
| "own_entries (JStr s) = indexed (map (\<lambda>c. JStr [c]) s)"
| "own_entries v = []"

definition lookup :: "obj \<Rightarrow> string \<Rightarrow> jsval" where
  "lookup m k = (case map_of m k of None \<Rightarrow> JUndefined | Some v \<Rightarrow> v)"

text \<open>
  Reading property \<open>k\<close> of a value that is neither \<^verbatim>\<open>undefined\<close> nor \<^verbatim>\<open>null\<close>. Properties
  inherited from the built-in prototypes are left out: the names the module reads
  (\<^verbatim>\<open>id\<close>, \<^verbatim>\<open>title\<close>, \<^verbatim>\<open>name\<close>, \<^verbatim>\<open>queryEditorId\<close>, \<^verbatim>\<open>sqlLab\<close>, ...) are not among them,
  and where it reads a computed key (\<^verbatim>\<open>queryEditors[qe.id]\<close>) the value is only spread,
  which copies nothing from an inherited function or prototype object.
\<close>

fun get :: "jsval \<Rightarrow> string \<Rightarrow> jsval" where
  "get (JArr xs) k = (if k = ''length'' then JNum (int (length xs)) else lookup (indexed xs) k)"
| "get (JStr s) k =
     (if k = ''length'' then JNum (int (length s)) else lookup (own_entries (JStr s)) k)"
| "get v k = lookup (own_entries v) k"

text \<open>Reading a property of \<^verbatim>\<open>undefined\<close> or \<^verbatim>\<open>null\<close> throws a \<^verbatim>\<open>TypeError\<close>.\<close>

definition access :: "jsval \<Rightarrow> string \<Rightarrow> error + jsval" where
  "access v k = (if nullish v then Inl TypeError else Inr (get v k))"

text \<open>\<^verbatim>\<open>{...target, ...v}\<close>: the properties of \<open>v\<close> defined on top of \<open>target\<close>.\<close>

definition spread :: "obj \<Rightarrow> jsval \<Rightarrow> obj" where
  "spread target v = foldl (\<lambda>m (k, w). put k w m) target (own_entries v)"

text \<open>
  Conversion to a string, used when a value becomes a property key
  (\<^verbatim>\<open>[qe.id]\<close>, \<^verbatim>\<open>tables[table.id]\<close>, \<^verbatim>\<open>queries[query.id]\<close>). An array is joined with
  commas; a plain object prints as \<^verbatim>\<open>[object Object]\<close> unless an own property shadows
  \<^verbatim>\<open>toString\<close> with something that cannot be called, in which case the conversion throws.
\<close>

fun ToString :: "jsval \<Rightarrow> error + string" and join :: "jsval list \<Rightarrow> error + string" where
  "ToString JUndefined = Inr ''undefined''"
| "ToString JNull = Inr ''null''"
| "ToString (JBool b) = Inr (if b then ''true'' else ''false'')"
| "ToString (JNum n) = Inr (Number_toString n)"
| "ToString (JStr s) = Inr s"
| "ToString (JArr xs) = join xs"
| "ToString (JObj kvs) =
     (if ''toString'' \<in> fst ` set kvs then Inl TypeError else Inr ''[object Object]'')"
| "join [] = Inr []"
| "join (x # xs) =
     (case (if nullish x then Inr [] else ToString x) of
        Inl e \<Rightarrow> Inl e
      | Inr s \<Rightarrow>
          (if xs = [] then Inr s
           else (case join xs of Inl e \<Rightarrow> Inl e | Inr r \<Rightarrow> Inr (s @ '','' @ r))))"

subsection \<open>Exceptions, loops and built-ins\<close>

definition and_then :: "error + 'a \<Rightarrow> ('a \<Rightarrow> error + 'b) \<Rightarrow> error + 'b" where
  "and_then r f = (case r of Inl e \<Rightarrow> Inl e | Inr v \<Rightarrow> f v)"

text \<open>A loop over a list whose body may throw: the first exception ends it.\<close>

fun foldM :: "('s \<Rightarrow> 'a \<Rightarrow> error + 's) \<Rightarrow> 's \<Rightarrow> 'a list \<Rightarrow> error + 's" where
  "foldM f s [] = Inr s"
| "foldM f s (x # xs) = (case f s x of Inl e \<Rightarrow> Inl e | Inr s' \<Rightarrow> foldM f s' xs)"

text \<open>
  The receiver of \<^verbatim>\<open>.forEach(...)\<close> and \<^verbatim>\<open>.reduce(...)\<close>: only an array has these methods;
  on anything else the call throws.
\<close>

fun as_array :: "jsval \<Rightarrow> error + jsval list" where
  "as_array (JArr xs) = Inr xs"
| "as_array v = Inl TypeError"

text \<open>The argument spread \<^verbatim>\<open>push(...v)\<close> iterates \<open>v\<close>: arrays and strings are iterable.\<close>

fun iterate :: "jsval \<Rightarrow> error + jsval list" where
  "iterate (JArr xs) = Inr xs"
| "iterate (JStr s) = Inr (map (\<lambda>c. JStr [c]) s)"
| "iterate v = Inl TypeError"

definition Object_values :: "jsval \<Rightarrow> error + jsval list" where
  "Object_values v = (if nullish v then Inl TypeError else Inr (map snd (own_entries v)))"

text \<open>
  The assignment \<^verbatim>\<open>m[k] = v\<close>. Unlike a computed key of an object literal it goes through
  inherited setters: for the key \<^verbatim>\<open>__proto__\<close>, when \<open>m\<close> has no own property of that
  name, it replaces the prototype of \<open>m\<close> and defines no property.
\<close>

definition assign :: "string \<Rightarrow> jsval \<Rightarrow> obj \<Rightarrow> obj" where
  "assign k v m = (if k = ''__proto__'' \<and> k \<notin> fst ` set m then m else put k v m)"

definition Set_has :: "jsval list \<Rightarrow> jsval \<Rightarrow> bool" where
  "Set_has members v = list_ex (\<lambda>x. strict_eq x v) members"

section \<open>dedupeTabHistory\<close>

text \<open>
  \<^verbatim>\<open>tabHistory.reduce((result, tabId) =>
     result.slice(-1)[0] === tabId ? result : result.concat(tabId), [])\<close>.
  \<open>last_elem\<close> is \<^verbatim>\<open>result.slice(-1)[0]\<close>, which is \<^verbatim>\<open>undefined\<close> on the empty array.
\<close>

definition last_elem :: "jsval list \<Rightarrow> jsval" where
  "last_elem xs = (if xs = [] then JUndefined else last xs)"

definition dedupeTabHistory :: "jsval list \<Rightarrow> jsval list" where
  "dedupeTabHistory tabHistory =
     foldl (\<lambda>result tabId. if strict_eq (last_elem result) tabId then result else result @ [tabId])
       [] tabHistory"

section \<open>Inputs and result of getInitialState\<close>

text \<open>
  The server's part of the argument is typed (\<^verbatim>\<open>BootstrapData & Partial<InitialState>\<close>).
  Identifiers the code prints with \<^verbatim>\<open>toString()\<close> are integers; fields the code only
  copies or tests for truthiness keep an arbitrary value. The description of a table
  schema is an object or \<^verbatim>\<open>null\<close>.
\<close>

record tab_state_id =
  ts_id :: int
  ts_label :: jsval

record table_schema =
  tsc_id :: int
  tsc_table :: jsval
  tsc_schema :: jsval
  tsc_database_id :: jsval
  tsc_tab_state_id :: int
  tsc_expanded :: jsval
  tsc_description :: "obj option"

record active_tab =
  at_id :: int
  at_label :: jsval
  at_sql :: jsval
  at_latest_query :: jsval
  at_saved_query :: jsval
  at_autorun :: jsval
  at_template_params :: jsval
  at_database_id :: jsval
  at_schema :: jsval
  at_query_limit :: jsval
  at_hide_left_bar :: jsval
  at_table_schemas :: "table_schema list"

record bootstrap =
  bd_conf :: obj
  bd_flash_messages :: jsval
  bd_active_tab :: "active_tab option"
  bd_tab_state_ids :: "tab_state_id list option"
  bd_databases :: jsval
  bd_queries :: jsval
  bd_user :: jsval

text \<open>
  What the function takes from its surroundings: the translation function \<^verbatim>\<open>t\<close>, the
  imported \<^verbatim>\<open>getToastsFromPyFlashMessages\<close>, and the two readings of \<^verbatim>\<open>Date.now()\<close>.
\<close>

record env =
  translate :: "string \<Rightarrow> string"
  getToastsFromPyFlashMessages :: "jsval \<Rightarrow> jsval"
  Date_now_first :: int
  Date_now_second :: int

text \<open>
  The item \<^verbatim>\<open>redux\<close> of \<^verbatim>\<open>localStorage\<close>: \<^verbatim>\<open>getItem\<close> returns \<^verbatim>\<open>null\<close> (\<open>Missing\<close>) or a
  string. The code tests the string for truthiness before it parses it, so the empty
  string is kept apart; on any other string \<^verbatim>\<open>JSON.parse\<close> either throws a
  \<^verbatim>\<open>SyntaxError\<close> (\<open>InvalidJSON\<close>, for instance the text \<^verbatim>\<open>{\<close>) or returns the value the
  text denotes (\<open>Parsed\<close>).
\<close>

datatype stored = Missing | EmptyText | InvalidJSON | Parsed jsval

record sqlLab_state =
  sl_activeSouthPaneTab :: string
  sl_alerts :: "jsval list"
  sl_databases :: jsval
  sl_offline :: bool
  sl_queries :: obj
  sl_queryEditors :: "jsval list"
  sl_tabHistory :: "jsval list"
  sl_tables :: "jsval list"
  sl_queriesLastUpdate :: int
  sl_editorTabLastUpdatedAt :: int
  sl_queryCostEstimates :: obj
  sl_unsavedQueryEditor :: jsval

record initial_state =
  st_sqlLab :: sqlLab_state
  st_messageToasts :: jsval
  st_localStorageUsageInKilobytes :: int
  st_common_flash_messages :: jsval
  st_common_conf :: obj
  st_user :: jsval

section \<open>getInitialState\<close>

subsection \<open>State loaded from the backend\<close>

definition defaultQueryEditor :: "(string \<Rightarrow> string) \<Rightarrow> obj \<Rightarrow> obj" where
  "defaultQueryEditor t conf = literal
     [(''loaded'', JBool True),
      (''name'', JStr (t ''Untitled query'')),
      (''sql'', JStr (''SELECT *'' @ [CHR 0x0A] @ ''FROM'' @ [CHR 0x0A] @ ''WHERE'')),
      (''latestQueryId'', JNull),
      (''autorun'', JBool False),
      (''dbId'', get (JObj conf) ''SQLLAB_DEFAULT_DBID''),
      (''queryLimit'', get (JObj conf) ''DEFAULT_SQLLAB_LIMIT''),
      (''hideLeftBar'', JBool False),
      (''remoteId'', JNull)]"

text \<open>The body of \<^verbatim>\<open>tabStateIds.forEach(({ id, label }) => ...)\<close>: the editor of one tab.\<close>

definition queryEditor_of ::
  "(string \<Rightarrow> string) \<Rightarrow> obj \<Rightarrow> active_tab option \<Rightarrow> tab_state_id \<Rightarrow> obj" where
  "queryEditor_of t conf activeTab tab =
     (let dummy =
        put ''name'' (ts_label tab)
          (put ''loaded'' (JBool False)
            (put ''id'' (JStr (Number_toString (ts_id tab)))
              (spread [] (JObj (defaultQueryEditor t conf)))))
      in case activeTab of
           None \<Rightarrow> dummy
         | Some a \<Rightarrow>
             if at_id a = ts_id tab then literal
               [(''id'', JStr (Number_toString (ts_id tab))),
                (''loaded'', JBool True),
                (''name'', at_label a),
                (''sql'', if truthy (at_sql a) then at_sql a else JStr []),
                (''selectedText'', JUndefined),
                (''latestQueryId'',
                   if truthy (at_latest_query a) then get (at_latest_query a) ''id'' else JNull),
                (''remoteId'',
                   (let saved_id = (if nullish (at_saved_query a) then JUndefined
                                    else get (at_saved_query a) ''id'')
                    in if truthy saved_id then saved_id else JNull)),
                (''autorun'', JBool (truthy (at_autorun a))),
                (''templateParams'',
                   if truthy (at_template_params a) then at_template_params a else JUndefined),
                (''dbId'', at_database_id a),
                (''schema'', at_schema a),
                (''queryLimit'', at_query_limit a),
                (''hideLeftBar'', at_hide_left_bar a)]
             else dummy)"

definition server_queryEditors ::
  "(string \<Rightarrow> string) \<Rightarrow> obj \<Rightarrow> active_tab option \<Rightarrow> tab_state_id list \<Rightarrow> obj" where
  "server_queryEditors t conf activeTab tabStateIds =
     foldl (\<lambda>queryEditors tab.
         put (Number_toString (ts_id tab)) (JObj (queryEditor_of t conf activeTab tab))
           (spread [] (JObj queryEditors)))
       [] tabStateIds"

text \<open>
  The table of one schema entry of the active tab.
  \<^verbatim>\<open>const { dataPreviewQueryId, ...persistData } = tableSchema.description\<close> reads one
  property and collects the others.
\<close>

definition table_of :: "table_schema \<Rightarrow> obj \<Rightarrow> obj" where
  "table_of tableSchema description = literal
     [(''dbId'', tsc_database_id tableSchema),
      (''queryEditorId'', JStr (Number_toString (tsc_tab_state_id tableSchema))),
      (''schema'', tsc_schema tableSchema),
      (''name'', tsc_table tableSchema),
      (''expanded'', tsc_expanded tableSchema),
      (''id'', JNum (tsc_id tableSchema)),
      (''dataPreviewQueryId'', get (JObj description) ''dataPreviewQueryId''),
      (''persistData'',
         JObj (filter (\<lambda>(k, v). k \<noteq> ''dataPreviewQueryId'') (own_entries (JObj description)))),
      (''initialized'', JBool True)]"

definition server_tables :: "active_tab option \<Rightarrow> obj" where
  "server_tables activeTab =
     (case activeTab of
        None \<Rightarrow> []
      | Some a \<Rightarrow>
          foldl (\<lambda>tables tableSchema.
              (case tsc_description tableSchema of
                 None \<Rightarrow> tables
               | Some description \<Rightarrow>
                   put (Number_toString (tsc_id tableSchema))
                     (JObj (table_of tableSchema description))
                     (spread [] (JObj tables))))
            [] (filter (\<lambda>tableSchema. tsc_description tableSchema \<noteq> None) (at_table_schemas a)))"

subsection \<open>State found in the browser\<close>

text \<open>The body of \<^verbatim>\<open>sqlLab.queryEditors.forEach(qe => ...)\<close>.\<close>

definition merge_queryEditor :: "jsval \<Rightarrow> obj \<Rightarrow> jsval \<Rightarrow> error + obj" where
  "merge_queryEditor unsavedQueryEditor queryEditors qe =
     and_then (access qe ''id'') (\<lambda>qe_id.
     and_then (ToString qe_id) (\<lambda>key.
       Inr (put key
              (JObj
                (put ''loaded'' (JBool True)
                  (put ''inLocalStorage'' (JBool True)
                    (spread
                      (put ''name''
                         (if truthy (get qe ''title'') then get qe ''title'' else get qe ''name'')
                         (spread (spread [] (lookup queryEditors key)) qe))
                      (if strict_eq (get unsavedQueryEditor ''id'') qe_id
                       then unsavedQueryEditor else JBool False)))))
              (spread [] (JObj queryEditors)))))"

text \<open>
  The body of \<^verbatim>\<open>sqlLab.tables.reduce((merged, table) => ..., tables)\<close>. The accumulator
  carries the set \<^verbatim>\<open>expandedTables\<close> along with \<^verbatim>\<open>merged\<close>; \<open>tables\<close> is the mapping
  built from the server's data, which the body reads while the result is being computed.
\<close>

definition merge_table :: "obj \<Rightarrow> jsval list \<times> obj \<Rightarrow> jsval \<Rightarrow> error + jsval list \<times> obj" where
  "merge_table tables acc table =
     (case acc of (expandedTables, merged) \<Rightarrow>
        and_then (access table ''queryEditorId'') (\<lambda>queryEditorId.
          (let expanded = \<not> Set_has expandedTables queryEditorId
           in and_then (access table ''id'') (\<lambda>table_id.
              and_then (ToString table_id) (\<lambda>key.
                Inr (if expanded then expandedTables @ [queryEditorId] else expandedTables,
                     put key
                       (JObj (put ''expanded'' (JBool expanded)
                                (spread (spread [] (lookup tables key)) table)))
                       (spread [] (JObj merged))))))))"

text \<open>The body of \<^verbatim>\<open>Object.values(sqlLab.queries).forEach(query => ...)\<close>.\<close>

definition merge_query :: "obj \<Rightarrow> jsval \<Rightarrow> error + obj" where
  "merge_query queries query =
     and_then (access query ''id'') (\<lambda>query_id.
     and_then (ToString query_id) (\<lambda>key.
       Inr (assign key (JObj (put ''inLocalStorage'' (JBool True) (spread [] query))) queries)))"

text \<open>
  The \<^verbatim>\<open>else\<close> branch taken when the browser's state has editors, on the values the
  local variables hold when it is entered. The result is the unsaved editor, the three
  mappings and the tab history.
\<close>

definition overlay ::
  "jsval \<Rightarrow> jsval \<times> obj \<times> obj \<times> obj \<times> jsval list
     \<Rightarrow> error + jsval \<times> obj \<times> obj \<times> obj \<times> jsval list" where
  "overlay sqlLab parts =
     (case parts of (unsavedQueryEditor0, queryEditors, tables, queries, tabHistory) \<Rightarrow>
      (let unsavedQueryEditor =
            (if truthy (get sqlLab ''unsavedQueryEditor'') then get sqlLab ''unsavedQueryEditor''
             else unsavedQueryEditor0)
       in and_then (as_array (get sqlLab ''queryEditors'')) (\<lambda>legacy_editors.
          and_then (foldM (merge_queryEditor unsavedQueryEditor) queryEditors legacy_editors)
            (\<lambda>queryEditors'.
          and_then (as_array (get sqlLab ''tables'')) (\<lambda>legacy_tables.
          and_then (foldM (merge_table tables) ([], tables) legacy_tables) (\<lambda>reduced.
          and_then (Object_values (get sqlLab ''queries'')) (\<lambda>legacy_queries.
          and_then (foldM merge_query queries legacy_queries) (\<lambda>queries'.
          and_then (iterate (get sqlLab ''tabHistory'')) (\<lambda>legacy_history.
            Inr (unsavedQueryEditor, queryEditors', snd reduced, queries',
                 tabHistory @ legacy_history))))))))))"

subsection \<open>The returned state\<close>

definition assemble ::
  "env \<Rightarrow> bootstrap \<Rightarrow> jsval \<times> obj \<times> obj \<times> obj \<times> jsval list \<Rightarrow> initial_state" where
  "assemble e b parts =
     (case parts of (unsavedQueryEditor, queryEditors, tables, queries, tabHistory) \<Rightarrow>
        \<lparr> st_sqlLab =
            \<lparr> sl_activeSouthPaneTab = ''Results'',
              sl_alerts = [],
              sl_databases = bd_databases b,
              sl_offline = False,
              sl_queries = queries,
              sl_queryEditors = map snd (own_entries (JObj queryEditors)),
              sl_tabHistory = dedupeTabHistory tabHistory,
              sl_tables = map snd (own_entries (JObj tables)),
              sl_queriesLastUpdate = Date_now_second e,
              sl_editorTabLastUpdatedAt = Date_now_first e,
              sl_queryCostEstimates = [],
              sl_unsavedQueryEditor = unsavedQueryEditor \<rparr>,
          st_messageToasts =
            getToastsFromPyFlashMessages e
              (if truthy (bd_flash_messages b) then bd_flash_messages b else JArr []),
          st_localStorageUsageInKilobytes = 0,
          st_common_flash_messages = bd_flash_messages b,
          st_common_conf = bd_conf b,
          st_user = bd_user b \<rparr>)"

text \<open>
  The values of \<^verbatim>\<open>unsavedQueryEditor\<close>, \<^verbatim>\<open>queryEditors\<close>, \<^verbatim>\<open>tables\<close>, \<^verbatim>\<open>queries\<close> and
  \<^verbatim>\<open>tabHistory\<close> when the function turns to \<^verbatim>\<open>localStorage\<close>: the state computed
  from the server's data alone.
\<close>

definition server_parts :: "env \<Rightarrow> bootstrap \<Rightarrow> jsval \<times> obj \<times> obj \<times> obj \<times> jsval list" where
  "server_parts e b =
     (let activeTab = bd_active_tab b;
          tabStateIds = (case bd_tab_state_ids b of None \<Rightarrow> [] | Some ids \<Rightarrow> ids);
          queryEditors = server_queryEditors (translate e) (bd_conf b) activeTab tabStateIds;
          tabHistory =
            (case activeTab of None \<Rightarrow> [] | Some a \<Rightarrow> [JStr (Number_toString (at_id a))]);
          tables = server_tables activeTab;
          queries = spread [] (bd_queries b)
      in (JObj [], queryEditors, tables, queries, tabHistory))"

text \<open>
  The function, given its surroundings \<open>e\<close>, the content \<open>redux\<close> of the storage item and
  the server's data \<open>b\<close>. It throws (\<open>Inl\<close>) or returns the new content of the storage item
  together with the state.
\<close>

definition getInitialState :: "env \<Rightarrow> stored \<Rightarrow> bootstrap \<Rightarrow> error + stored \<times> initial_state" where
  "getInitialState e redux b =
     (case redux of
        Missing \<Rightarrow> Inr (redux, assemble e b (server_parts e b))
      | EmptyText \<Rightarrow> Inr (redux, assemble e b (server_parts e b))
      | InvalidJSON \<Rightarrow> Inl SyntaxError
      | Parsed sqlLabCacheData \<Rightarrow>
          (let sqlLab = (if nullish sqlLabCacheData then JUndefined
                         else get sqlLabCacheData ''sqlLab'')
           in if \<not> truthy sqlLab then Inr (redux, assemble e b (server_parts e b))
              else and_then (access (get sqlLab ''queryEditors'') ''length'') (\<lambda>n.
                if strict_eq n (JNum 0) then Inr (Missing, assemble e b (server_parts e b))
                else and_then (overlay sqlLab (server_parts e b))
                       (\<lambda>parts. Inr (redux, assemble e b parts)))))"

section \<open>Notions used in the statements\<close>

definition is_digit :: "char \<Rightarrow> bool" where
  "is_digit c = (c \<in> set ''0123456789'')"

text \<open>
  \<open>ordered k k'\<close>: key \<open>k\<close> may stand before key \<open>k'\<close> in an enumeration. A property list is
  \<open>normal\<close> when it is in enumeration order: array indices first and ascending, then the
  other keys, no key twice.
\<close>

definition ordered :: "string \<Rightarrow> string \<Rightarrow> bool" where
  "ordered k k' =
     (case array_index k of
        Some i \<Rightarrow> (case array_index k' of Some j \<Rightarrow> i < j | None \<Rightarrow> True)
      | None \<Rightarrow> array_index k' = None \<and> k \<noteq> k')"

definition normal :: "obj \<Rightarrow> bool" where
  "normal m = sorted_wrt ordered (map fst m)"

text \<open>\<open>own v k\<close> is the own property \<open>k\<close> of \<open>v\<close>, if \<open>v\<close> has one.\<close>

definition own :: "jsval \<Rightarrow> string \<Rightarrow> jsval option" where
  "own v = map_of (own_entries v)"

subsection \<open>Sample inputs\<close>

definition sample_env :: env where
  "sample_env =
     \<lparr> translate = (\<lambda>s. s), getToastsFromPyFlashMessages = (\<lambda>v. v),
       Date_now_first = 1000, Date_now_second = 1001 \<rparr>"

text \<open>One tab \<^verbatim>\<open>{id: 5, label: "Query 5"}\<close>, no active tab, no queries.\<close>

definition sample_bootstrap :: bootstrap where
  "sample_bootstrap =
     \<lparr> bd_conf = [(''SQLLAB_DEFAULT_DBID'', JNum 1), (''DEFAULT_SQLLAB_LIMIT'', JNum 1000)],
       bd_flash_messages = JArr [],
       bd_active_tab = None,
       bd_tab_state_ids = Some [\<lparr> ts_id = 5, ts_label = JStr ''Query 5'' \<rparr>],
       bd_databases = JArr [],
       bd_queries = JObj [],
       bd_user = JNull \<rparr>"

text \<open>\<^verbatim>\<open>{"sqlLab": {"queryEditors": [], "tables": []}}\<close>\<close>

definition clean_slate_data :: jsval where
  "clean_slate_data =
     JObj [(''sqlLab'', JObj [(''queryEditors'', JArr []), (''tables'', JArr [])])]"

definition legacy_tables_example :: "jsval list" where
  "legacy_tables_example =
     [JObj [(''id'', JNum 1), (''queryEditorId'', JStr ''A'')],
      JObj [(''id'', JNum 2), (''queryEditorId'', JStr ''A'')],
      JObj [(''id'', JNum 3), (''queryEditorId'', JStr ''B'')]]"




definition merged_field :: "jsval \<Rightarrow> jsval \<Rightarrow> jsval \<Rightarrow> string \<Rightarrow> jsval" where
  "merged_field patch existing qe f =
     (if f = ''loaded'' \<or> f = ''inLocalStorage'' then JBool True
      else case (if strict_eq (get patch ''id'') (get qe ''id'') then own patch f else None) of
             Some w \<Rightarrow> w
           | None \<Rightarrow>
               if f = ''name''
               then (if truthy (get qe ''title'') then get qe ''title'' else get qe ''name'')
               else (case own qe f of
                       Some w \<Rightarrow> w
                     | None \<Rightarrow> (case own existing f of Some w \<Rightarrow> w | None \<Rightarrow> JUndefined)))"

definition returned_editors :: "error + stored \<times> initial_state \<Rightarrow> jsval list" where
  "returned_editors r =
     (case r of Inl err \<Rightarrow> [] | Inr (redux, st) \<Rightarrow> sl_queryEditors (st_sqlLab st))"

definition editor_example_legacy :: "jsval \<Rightarrow> jsval" where
  "editor_example_legacy qe =
     JObj [(''sqlLab'', JObj
       [(''queryEditors'', JArr [qe]),
        (''tables'', JArr []),
        (''queries'', JObj []),
        (''tabHistory'', JArr [])])]"

definition returned_unsaved :: "error + stored \<times> initial_state \<Rightarrow> jsval option" where
  "returned_unsaved r =
     (case r of Inl err \<Rightarrow> None | Inr (redux, st) \<Rightarrow> Some (sl_unsavedQueryEditor (st_sqlLab st)))"

definition unsaved_example_legacy :: jsval where
  "unsaved_example_legacy =
     JObj [(''sqlLab'', JObj
       [(''queryEditors'', JArr [JObj [(''id'', JStr ''5''), (''name'', JStr ''first'')],
                                 JObj [(''id'', JStr ''abc''), (''name'', JStr ''second'')]]),
        (''unsavedQueryEditor'', JObj [(''id'', JStr ''abc''), (''sql'', JStr ''SELECT 2'')]),
        (''tables'', JArr []),
        (''queries'', JObj []),
        (''tabHistory'', JArr [])])]"

subsection \<open>The order of the returned sequences\<close>

text \<open>
  The keys of a sequence of definitions, each at the place of its first occurrence.
\<close>

definition first_occurrences :: "string list \<Rightarrow> string list" where
  "first_occurrences ks = rev (remdups (rev ks))"

text \<open>
  The order in which an object lists its own properties once the keys \<open>ks\<close> have been
  defined on it one after the other: the array indices among them in ascending numeric
  order, then the other keys in the order of their first definition. It is what
  \<^verbatim>\<open>Object.values\<close> follows.
\<close>

definition enumeration_order :: "string list \<Rightarrow> string list" where
  "enumeration_order ks =
     map dec (sort (remdups (List.map_filter array_index ks)))
     @ first_occurrences (filter (\<lambda>k. array_index k = None) ks)"

text \<open>
  Keys that are all array indices and come in strictly ascending numeric order.
\<close>

definition ascending_indices :: "string list \<Rightarrow> bool" where
  "ascending_indices ks \<longleftrightarrow>
     list_all (\<lambda>k. array_index k \<noteq> None) ks \<and> sorted_wrt (<) (List.map_filter array_index ks)"

text \<open>
  The property key \<^verbatim>\<open>[qe.id]\<close>, \<^verbatim>\<open>[table.id]\<close> of a legacy editor or table. Where the
  conversion throws the loop stops and nothing is returned; the key is then immaterial.
\<close>

definition legacy_key :: "jsval \<Rightarrow> string" where
  "legacy_key x = (case ToString (get x ''id'') of Inl err \<Rightarrow> [] | Inr k \<Rightarrow> k)"

text \<open>
  The browser's \<^verbatim>\<open>sqlLab\<close> when the function merges it: the storage item parses to a
  value with a truthy \<^verbatim>\<open>sqlLab\<close> whose \<^verbatim>\<open>queryEditors.length\<close> is not \<^verbatim>\<open>0\<close>.
\<close>

definition merged_legacy :: "stored \<Rightarrow> jsval option" where
  "merged_legacy redux =
     (case redux of
        Parsed d \<Rightarrow>
          if truthy (get d ''sqlLab'')
             \<and> \<not> strict_eq (get (get (get d ''sqlLab'') ''queryEditors'') ''length'') (JNum 0)
          then Some (get d ''sqlLab'') else None
      | _ \<Rightarrow> None)"

text \<open>
  The elements of the array \<^verbatim>\<open>sqlLab.queryEditors\<close> or \<^verbatim>\<open>sqlLab.tables\<close> that the loops
  run over; none when nothing is merged.
\<close>

definition legacy_list :: "jsval option \<Rightarrow> string \<Rightarrow> jsval list" where
  "legacy_list legacy field =
     (case legacy of
        None \<Rightarrow> []
      | Some sqlLab \<Rightarrow> (case as_array (get sqlLab field) of Inl err \<Rightarrow> [] | Inr xs \<Rightarrow> xs))"

text \<open>
  The elements \<^verbatim>\<open>...sqlLab.tabHistory\<close> pushed onto the tab history; none when nothing is merged.
\<close>

definition legacy_history :: "jsval option \<Rightarrow> jsval list" where
  "legacy_history legacy =
     (case legacy of
        None \<Rightarrow> []
      | Some sqlLab \<Rightarrow> (case iterate (get sqlLab ''tabHistory'') of Inl err \<Rightarrow> [] | Inr h \<Rightarrow> h))"

text \<open>
  \<^verbatim>\<open>activeTab ? [activeTab.id.toString()] : []\<close>
\<close>

definition server_history :: "bootstrap \<Rightarrow> jsval list" where
  "server_history b =
     (case bd_active_tab b of None \<Rightarrow> [] | Some a \<Rightarrow> [JStr (Number_toString (at_id a))])"

text \<open>
  The parameter \<^verbatim>\<open>tab_state_ids: tabStateIds = []\<close>.
\<close>

definition server_tabs :: "bootstrap \<Rightarrow> tab_state_id list" where
  "server_tabs b = (case bd_tab_state_ids b of None \<Rightarrow> [] | Some ids \<Rightarrow> ids)"

text \<open>
  The keys under which the server's editors are defined, in the order of \<^verbatim>\<open>tabStateIds\<close>.
\<close>

definition server_editor_keys :: "bootstrap \<Rightarrow> string list" where
  "server_editor_keys b = map (\<lambda>tab. Number_toString (ts_id tab)) (server_tabs b)"

text \<open>
  The keys under which the server's tables are defined, in the order of the table schemas
  of the active tab that have a description.
\<close>

definition server_table_keys :: "bootstrap \<Rightarrow> string list" where
  "server_table_keys b =
     (case bd_active_tab b of
        None \<Rightarrow> []
      | Some a \<Rightarrow>
          map (\<lambda>s. Number_toString (tsc_id s))
            (filter (\<lambda>s. tsc_description s \<noteq> None) (at_table_schemas a)))"

text \<open>
  Browser state with the editors \<^verbatim>\<open>abc\<close> and \<^verbatim>\<open>5\<close>, the table \<^verbatim>\<open>t1\<close> and the tab history
  \<^verbatim>\<open>["abc", "abc", "5"]\<close>.
\<close>

definition assembly_example_legacy :: jsval where
  "assembly_example_legacy =
     JObj [(''sqlLab'', JObj
       [(''queryEditors'', JArr [JObj [(''id'', JStr ''abc''), (''name'', JStr ''legacy'')],
                                 JObj [(''id'', JStr ''5''), (''name'', JStr ''Query 5'')]]),
        (''tables'', JArr [JObj [(''id'', JStr ''t1''), (''queryEditorId'', JStr ''abc'')]]),
        (''queries'', JObj []),
        (''tabHistory'', JArr [JStr ''abc'', JStr ''abc'', JStr ''5''])])]"

text \<open>
  The server lists tab 2 before tab 1; there is no active tab.
\<close>

definition reversed_tabs_bootstrap :: bootstrap where
  "reversed_tabs_bootstrap =
     sample_bootstrap \<lparr> bd_tab_state_ids :=
       Some [\<lparr> ts_id = 2, ts_label = JStr ''opened first'' \<rparr>,
             \<lparr> ts_id = 1, ts_label = JStr ''opened second'' \<rparr>] \<rparr>"

section \<open>The tab history without adjacent repetitions\<close>

lemma last_elem_snoc [simp]: "last_elem (xs @ [x]) = x"
  by (simp add: last_elem_def)

lemma last_elem_Nil [simp]: "last_elem [] = JUndefined"
  by (simp add: last_elem_def)

lemma dedupe_step_strings:
  "foldl (\<lambda>result tabId. if strict_eq (last_elem result) tabId then result else result @ [tabId])
     (map JStr (ys @ [y])) (map JStr xs)
   = map JStr ys @ map JStr (remdups_adj (y # xs))"
proof (induction xs arbitrary: ys y)
  case Nil
  then show ?case by simp
next
  case (Cons x xs)
  show ?case
  proof (cases "y = x")
    case True
    then show ?thesis using Cons.IH [of ys x] by simp
  next
    case False
    have "map JStr (ys @ [y]) @ [JStr x] = map JStr ((ys @ [y]) @ [x])" by simp
    then show ?thesis using False Cons.IH [of "ys @ [y]" x] by simp
  qed
qed

lemma dedupeTabHistory_strings:
  "dedupeTabHistory (map JStr xs) = map JStr (remdups_adj xs)"
proof (cases xs)
  case Nil
  then show ?thesis by (simp add: dedupeTabHistory_def)
next
  case (Cons x xs')
  then show ?thesis
    using dedupe_step_strings [of "[]" x xs'] by (simp add: dedupeTabHistory_def)
qed

lemma remdups_adj_idem: "remdups_adj (remdups_adj xs) = remdups_adj xs"
proof (induction xs rule: remdups_adj.induct)
  case 1
  show ?case by simp
next
  case (2 x)
  show ?case by simp
next
  case (3 x y xs)
  show ?case
  proof (cases "x = y")
    case True
    with 3 show ?thesis by simp
  next
    case False
    obtain zs where zs: "remdups_adj (y # xs) = y # zs"
      using remdups_adj_Cons_alt [of y xs] by metis
    have "remdups_adj (x # remdups_adj (y # xs)) = x # remdups_adj (remdups_adj (y # xs))"
      using False by (simp add: zs)
    with False 3 show ?thesis by simp
  qed
qed

text \<open>
  C5. \<^verbatim>\<open>dedupeTabHistory(tabHistory: string[])\<close> collapses every run of consecutive equal
  ids to one occurrence and changes nothing else: on a sequence of strings it computes
  \<open>remdups_adj\<close>, the list with adjacent duplicates removed. It is total, returns the
  empty sequence on the empty sequence, and keeps a repeat that is not adjacent:
  \<^verbatim>\<open>[a,a,b,a]\<close> becomes \<^verbatim>\<open>[a,b,a]\<close>.
\<close>

theorem dedupeTabHistory_adjacent_only:
  "dedupeTabHistory (map JStr xs) = map JStr (remdups_adj xs)
   \<and> dedupeTabHistory [] = []
   \<and> dedupeTabHistory [JStr ''a'', JStr ''a'', JStr ''b'', JStr ''a'']
       = [JStr ''a'', JStr ''b'', JStr ''a'']"
  using dedupeTabHistory_strings [of xs] dedupeTabHistory_strings [of "[]"]
    dedupeTabHistory_strings [of "[''a'', ''a'', ''b'', ''a'']"]
  by simp

text \<open>
  C10. \<^verbatim>\<open>dedupeTabHistory\<close> is idempotent: applied to its own output on a sequence of
  ids, it returns that output.
\<close>

theorem dedupeTabHistory_idempotent:
  "dedupeTabHistory (dedupeTabHistory (map JStr xs)) = dedupeTabHistory (map JStr xs)"
  by (simp add: dedupeTabHistory_strings remdups_adj_idem)

section \<open>Decimal keys\<close>

lemma digit_char_cases:
  "digit_char 0 = CHR ''0''" "digit_char (Suc 0) = CHR ''1''" "digit_char 2 = CHR ''2''"
  "digit_char 3 = CHR ''3''" "digit_char 4 = CHR ''4''" "digit_char 5 = CHR ''5''"
  "digit_char 6 = CHR ''6''" "digit_char 7 = CHR ''7''" "digit_char 8 = CHR ''8''"
  "digit_char 9 = CHR ''9''"
  by code_simp+


lemma below_ten: "(d::nat) < 10 \<Longrightarrow> d = 0 \<or> d = Suc 0 \<or> d = 2 \<or> d = 3 \<or> d = 4 \<or> d = 5 \<or> d = 6 \<or> d = 7 \<or> d = 8 \<or> d = 9"
  by arith

lemma of_char_digits:
  "of_char CHR ''0'' = (48::nat)" "of_char CHR ''1'' = (49::nat)" "of_char CHR ''2'' = (50::nat)"
  "of_char CHR ''3'' = (51::nat)" "of_char CHR ''4'' = (52::nat)" "of_char CHR ''5'' = (53::nat)"
  "of_char CHR ''6'' = (54::nat)" "of_char CHR ''7'' = (55::nat)" "of_char CHR ''8'' = (56::nat)"
  "of_char CHR ''9'' = (57::nat)"
  by simp_all

lemma digit_val_digit_char:
  assumes "d < 10"
  shows "digit_val (digit_char d) = d"
  using below_ten [OF assms] by (elim disjE) (simp_all add: digit_char_cases digit_val_def)

lemma is_digit_digit_char:
  assumes "d < 10"
  shows "is_digit (digit_char d)"
  using below_ten [OF assms] by (elim disjE) (simp_all add: digit_char_cases is_digit_def)

lemma str_val_snoc: "str_val (s @ [c]) = 10 * str_val s + digit_val c"
  by (simp add: str_val_def)

lemma dec_small: "n < 10 \<Longrightarrow> dec n = [digit_char n]"
  by (subst dec.simps) simp

lemma dec_large: "\<not> n < 10 \<Longrightarrow> dec n = dec (n div 10) @ [digit_char (n mod 10)]"
  by (subst dec.simps) simp

lemma str_val_dec: "str_val (dec n) = n"
proof (induction n rule: dec.induct)
  case (1 n)
  show ?case
  proof (cases "n < 10")
    case True
    then show ?thesis by (simp add: dec_small str_val_def digit_val_digit_char)
  next
    case False
    then have "str_val (dec (n div 10)) = n div 10" by (rule 1)
    then show ?thesis
      using False by (simp add: dec_large str_val_snoc digit_val_digit_char)
  qed
qed

lemma digits_dec: "c \<in> set (dec n) \<Longrightarrow> is_digit c"
proof (induction n rule: dec.induct)
  case (1 n)
  show ?case
  proof (cases "n < 10")
    case True
    then show ?thesis using "1.prems" by (simp add: dec_small is_digit_digit_char)
  next
    case False
    then have "c \<in> set (dec (n div 10)) \<or> c = digit_char (n mod 10)"
      using "1.prems" by (auto simp add: dec_large)
    then show ?thesis
    proof
      assume "c \<in> set (dec (n div 10))"
      with False show ?thesis by (rule "1.IH")
    next
      assume "c = digit_char (n mod 10)"
      then show ?thesis by (simp add: is_digit_digit_char)
    qed
  qed
qed

lemma dec_not_Nil: "dec n \<noteq> []"
  by (cases "n < 10") (simp_all add: dec_small dec_large)

lemma dec_inj: "dec m = dec n \<Longrightarrow> m = n"
  by (metis str_val_dec)


lemma array_index_dec: "n < 4294967295 \<Longrightarrow> array_index (dec n) = Some n"
  by (simp add: array_index_def str_val_dec)

lemma array_index_SomeD: "array_index k = Some n \<Longrightarrow> k = dec n \<and> n < 4294967295"
  by (auto simp: array_index_def Let_def split: if_splits)

lemma array_index_inj: "array_index k = Some n \<Longrightarrow> array_index k' = Some n \<Longrightarrow> k = k'"
  by (auto dest!: array_index_SomeD)

lemma array_index_nondigit: "c \<in> set k \<Longrightarrow> \<not> is_digit c \<Longrightarrow> array_index k = None"
proof (cases "array_index k")
  case None
  then show ?thesis by simp
next
  case (Some n)
  assume "c \<in> set k" "\<not> is_digit c"
  moreover have "k = dec n" using Some array_index_SomeD by blast
  ultimately show ?thesis using digits_dec by blast
qed

lemma array_index_nondigit_hd: "\<not> is_digit c \<Longrightarrow> array_index (c # cs) = None"
  by (rule array_index_nondigit [of c]) simp_all

lemma array_index_Nil: "array_index [] = None"
proof (cases "array_index []")
  case None
  then show ?thesis by simp
next
  case (Some n)
  then have "[] = dec n" using array_index_SomeD by blast
  then show ?thesis using dec_not_Nil [of n] by simp
qed

lemma dec_no_minus: "dec n \<noteq> CHR ''-'' # s"
proof
  assume "dec n = CHR ''-'' # s"
  then have "CHR ''-'' \<in> set (dec n)" by simp
  then have "is_digit CHR ''-''" by (rule digits_dec)
  then show False by (simp add: is_digit_def)
qed

lemma Number_toString_inj: "Number_toString i = Number_toString j \<Longrightarrow> i = j"
proof -
  assume eq: "Number_toString i = Number_toString j"
  show ?thesis
  proof (cases "i < 0")
    case True
    show ?thesis
    proof (cases "j < 0")
      case True
      with \<open>i < 0\<close> eq have "dec (nat (- i)) = dec (nat (- j))" by (simp add: Number_toString_def)
      then have "nat (- i) = nat (- j)" by (rule dec_inj)
      with True \<open>i < 0\<close> show ?thesis by simp
    next
      case False
      with \<open>i < 0\<close> eq have "dec (nat j) = CHR ''-'' # dec (nat (- i))" by (simp add: Number_toString_def)
      then show ?thesis using dec_no_minus by blast
    qed
  next
    case False
    show ?thesis
    proof (cases "j < 0")
      case True
      with \<open>\<not> i < 0\<close> eq have "dec (nat i) = CHR ''-'' # dec (nat (- j))" by (simp add: Number_toString_def)
      then show ?thesis using dec_no_minus by blast
    next
      case False
      with \<open>\<not> i < 0\<close> eq have "dec (nat i) = dec (nat j)" by (simp add: Number_toString_def)
      then have "nat i = nat j" by (rule dec_inj)
      with False \<open>\<not> i < 0\<close> show ?thesis by simp
    qed
  qed
qed

lemma array_index_Number_toString:
  "array_index (Number_toString i) = (if 0 \<le> i \<and> i < 4294967295 then Some (nat i) else None)"
proof (cases "i < 0")
  case True
  have "\<not> is_digit CHR ''-''" by (simp add: is_digit_def)
  then show ?thesis using True by (simp add: Number_toString_def array_index_nondigit_hd)
next
  case False
  show ?thesis
  proof (cases "i < 4294967295")
    case True
    then show ?thesis using False by (simp add: Number_toString_def array_index_dec)
  next
    case big: False
    have "array_index (dec (nat i)) = None"
    proof (cases "array_index (dec (nat i))")
      case None
      then show ?thesis .
    next
      case (Some n)
      then have "dec (nat i) = dec n" "n < 4294967295" using array_index_SomeD by blast+
      then have "nat i < 4294967295" using dec_inj by blast
      then show ?thesis using big by simp
    qed
    then show ?thesis using False big by (simp add: Number_toString_def)
  qed
qed

section \<open>Property lists\<close>

lemma map_of_put: "map_of (put k v m) = (map_of m)(k \<mapsto> v)"
  by (induction m) (auto simp: fun_eq_iff)

lemma lookup_put: "lookup (put k v m) k' = (if k' = k then v else lookup m k')"
  by (simp add: lookup_def map_of_put)

lemma keys_put: "fst ` set (put k v m) = insert k (fst ` set m)"
  using arg_cong [OF map_of_put [of k v m], of dom] by (simp add: dom_map_of_conv_image_fst)

lemma map_of_foldl_put:
  "map_of (foldl (\<lambda>m (k, w). put k w m) t es) = map_of t ++ map_of (rev es)"
proof (induction es arbitrary: t)
  case Nil
  then show ?case by simp
next
  case (Cons e es)
  obtain k w where e: "e = (k, w)" by (cases e)
  have "map_of (put k w t) ++ map_of (rev es) = map_of t ++ ([k \<mapsto> w] ++ map_of (rev es))"
    by (auto simp: fun_eq_iff map_of_put map_add_def split: option.splits)
  then show ?case using Cons [of "put k w t"] by (simp add: e)
qed

lemma keys_foldl_put:
  "fst ` set (foldl (\<lambda>m (k, w). put k w m) t es) = fst ` set t \<union> fst ` set es"
  using arg_cong [OF map_of_foldl_put [of t es], of dom]
  by (simp add: dom_map_of_conv_image_fst Un_commute)

lemma ordered_irrefl: "\<not> ordered k k"
  by (simp add: ordered_def split: option.splits)

lemma ordered_trans: "array_index a \<noteq> None \<Longrightarrow> ordered a b \<Longrightarrow> ordered b c \<Longrightarrow> ordered a c"
  by (auto simp: ordered_def split: option.splits)

lemma goes_before_asym: "ordered k' k \<Longrightarrow> \<not> goes_before k k'"
  by (auto simp: goes_before_def ordered_def split: option.splits)

lemma ordered_total: "a \<noteq> b \<Longrightarrow> ordered a b \<or> ordered b a"
  by (auto simp: ordered_def split: option.splits dest: array_index_inj)

lemma goes_before_ordered: "goes_before k k' = (array_index k \<noteq> None \<and> ordered k k')"
  by (auto simp: goes_before_def ordered_def split: option.splits)

lemma normal_distinct: "normal m \<Longrightarrow> distinct (map fst m)"
  unfolding normal_def
proof (induction "map fst m" arbitrary: m)
  case Nil
  then show ?case by simp
next
  case (Cons k ks)
  then obtain p ps where m: "m = p # ps" "fst p = k" "map fst ps = ks" by (cases m) auto
  have "k \<notin> set ks" using Cons.prems Cons.hyps(2) [symmetric] ordered_irrefl by auto
  moreover have "distinct (map fst ps)" using Cons.hyps(1) [of ps] Cons.prems m by simp
  ultimately show ?case using m by simp
qed

lemma normal_Nil [simp]: "normal []"
  by (simp add: normal_def)

lemma normal_put: "normal m \<Longrightarrow> normal (put k v m)"
proof (induction m)
  case Nil
  then show ?case by (simp add: normal_def)
next
  case (Cons p ps)
  obtain k' v' where p: "p = (k', v')" by (cases p)
  have tail: "normal ps" and head: "\<forall>x \<in> fst ` set ps. ordered k' x"
    using Cons.prems by (auto simp: normal_def p)
  show ?case
  proof (cases "k' = k")
    case True
    then show ?thesis using Cons.prems by (simp add: normal_def p)
  next
    case neq: False
    show ?thesis
    proof (cases "goes_before k k'")
      case True
      then have "ordered k k'" "array_index k \<noteq> None" by (simp_all add: goes_before_ordered)
      then have "\<forall>x \<in> fst ` set ps. ordered k x" using head ordered_trans by blast
      then show ?thesis using Cons.prems True neq \<open>ordered k k'\<close> by (auto simp: normal_def p)
    next
      case False
      have "ordered k' k"
      proof (cases "array_index k")
        case None
        then show ?thesis using neq by (auto simp: ordered_def split: option.splits)
      next
        case (Some i)
        then have "\<not> ordered k k'" using False by (simp add: goes_before_ordered)
        then show ?thesis using ordered_total [of k' k] neq by blast
      qed
      then have "\<forall>x \<in> fst ` set (put k v ps). ordered k' x" using head by (simp add: keys_put)
      then show ?thesis using False neq Cons.IH [OF tail] by (auto simp: normal_def p)
    qed
  qed
qed

lemma normal_foldl_put: "normal t \<Longrightarrow> normal (foldl (\<lambda>m (k, w). put k w m) t es)"
  by (induction es arbitrary: t) (auto simp: normal_put)

lemma normal_literal [simp]: "normal (literal kvs)"
  by (simp add: literal_def normal_foldl_put)

lemma normal_spread: "normal t \<Longrightarrow> normal (spread t v)"
  by (simp add: spread_def normal_foldl_put)

lemma put_last: "\<forall>x \<in> fst ` set t. ordered x k \<Longrightarrow> put k v t = t @ [(k, v)]"
proof (induction t)
  case Nil
  then show ?case by simp
next
  case (Cons p ps)
  obtain k' v' where p: "p = (k', v')" by (cases p)
  have "ordered k' k" using Cons.prems by (simp add: p)
  then have "k' \<noteq> k" "\<not> goes_before k k'"
    using ordered_irrefl goes_before_asym by auto
  then show ?case using Cons by (simp add: p)
qed

lemma foldl_put_normal: "normal (t @ m) \<Longrightarrow> foldl (\<lambda>m (k, w). put k w m) t m = t @ m"
proof (induction m arbitrary: t)
  case Nil
  then show ?case by simp
next
  case (Cons p ps)
  obtain k v where p: "p = (k, v)" by (cases p)
  have "\<forall>x \<in> fst ` set t. ordered x k"
    using Cons.prems by (auto simp: normal_def p sorted_wrt_append)
  then have "put k v t = t @ [(k, v)]" by (rule put_last)
  then show ?case using Cons.IH [of "t @ [p]"] Cons.prems by (simp add: p)
qed

lemma literal_normal:
  assumes "normal m"
  shows "literal m = m"
  using foldl_put_normal [where t = "[]" and m = m] assms by (simp add: literal_def)

lemma spread_Nil: "spread [] v = literal (own_entries v)"
  by (simp add: spread_def literal_def)

lemma spread_Nil_normal: "normal m \<Longrightarrow> spread [] (JObj m) = m"
  by (simp add: spread_Nil literal_normal)

lemma map_of_literal: "map_of (literal kvs) = map_of (rev kvs)"
  by (simp add: literal_def map_of_foldl_put)

lemma distinct_indexed: "distinct (map fst (indexed xs))"
proof -
  have "inj dec" by (rule injI) (rule dec_inj)
  then have "distinct (map dec [0..<length xs])" by (simp add: distinct_map inj_on_def)
  then show ?thesis by (simp add: indexed_def)
qed

lemma distinct_own_entries: "distinct (map fst (own_entries v))"
  by (cases v) (simp_all add: distinct_indexed normal_distinct)

lemma map_of_rev_distinct: "distinct (map fst xs) \<Longrightarrow> map_of (rev xs) = map_of xs"
  by (rule map_of_inject_set [THEN iffD2]) (simp_all add: rev_map [symmetric])

lemma map_of_spread: "map_of (spread t v) = map_of t ++ map_of (own_entries v)"
  by (simp add: spread_def map_of_foldl_put map_of_rev_distinct distinct_own_entries)

lemma lookup_spread:
  "lookup (spread t v) k = (case own v k of None \<Rightarrow> lookup t k | Some w \<Rightarrow> w)"
  by (simp add: lookup_def map_of_spread own_def map_add_def split: option.splits)

lemma keys_spread: "fst ` set (spread t v) = fst ` set t \<union> dom (own v)"
  by (simp add: spread_def keys_foldl_put own_def dom_map_of_conv_image_fst)

lemmas eval_simps = literal_def lookup_def goes_before_def array_index_nondigit_hd array_index_Nil
  is_digit_def spread_def and_then_def access_def indexed_def own_def

section \<open>The storage item\<close>

lemma get_nullish [simp]: "nullish v \<Longrightarrow> get v k = JUndefined"
  by (cases v) (simp_all add: lookup_def)

lemma truthy_not_nullish: "truthy v \<Longrightarrow> \<not> nullish v"
  by (cases v) simp_all

lemma getInitialState_no_sqlLab:
  "\<not> truthy (get d ''sqlLab'')
   \<Longrightarrow> getInitialState e (Parsed d) b = Inr (Parsed d, assemble e b (server_parts e b))"
  by (cases "nullish d") (simp_all add: getInitialState_def)

lemma getInitialState_sqlLab:
  "truthy (get d ''sqlLab'') \<Longrightarrow> getInitialState e (Parsed d) b =
     and_then (access (get (get d ''sqlLab'') ''queryEditors'') ''length'') (\<lambda>n.
       if strict_eq n (JNum 0) then Inr (Missing, assemble e b (server_parts e b))
       else and_then (overlay (get d ''sqlLab'') (server_parts e b))
              (\<lambda>parts. Inr (Parsed d, assemble e b parts)))"
  by (cases "nullish d") (simp_all add: getInitialState_def Let_def)

text \<open>
  C4. When the storage item parses to a value whose \<^verbatim>\<open>sqlLab\<close> has an empty list of
  query editors, the function removes the item (its new content is \<open>Missing\<close>) and
  returns the state assembled from the server's data alone, which is the very state it
  returns when the item is missing: nothing of the browser's state is merged.
\<close>

theorem clean_slate_detection:
  assumes "truthy (get d ''sqlLab'')"
    and "get (get d ''sqlLab'') ''queryEditors'' = JArr []"
  shows "getInitialState e (Parsed d) b = Inr (Missing, assemble e b (server_parts e b))
       \<and> getInitialState e Missing b = Inr (Missing, assemble e b (server_parts e b))"
proof
  show "getInitialState e (Parsed d) b = Inr (Missing, assemble e b (server_parts e b))"
    using assms by (simp add: getInitialState_sqlLab and_then_def access_def)
  show "getInitialState e Missing b = Inr (Missing, assemble e b (server_parts e b))"
    by (simp add: getInitialState_def)
qed

theorem clean_slate_detection_witness:
  "truthy (get clean_slate_data ''sqlLab'')
   \<and> get (get clean_slate_data ''sqlLab'') ''queryEditors'' = JArr []
   \<and> getInitialState sample_env (Parsed clean_slate_data) sample_bootstrap
       = Inr (Missing, assemble sample_env sample_bootstrap (server_parts sample_env sample_bootstrap))
   \<and> getInitialState sample_env Missing sample_bootstrap
       = Inr (Missing, assemble sample_env sample_bootstrap (server_parts sample_env sample_bootstrap))"
proof -
  have h1: "truthy (get clean_slate_data ''sqlLab'')"
    by (simp add: clean_slate_data_def eval_simps)
  have h2: "get (get clean_slate_data ''sqlLab'') ''queryEditors'' = JArr []"
    by (simp add: clean_slate_data_def eval_simps)
  show ?thesis
    using h1 h2 clean_slate_detection [OF h1 h2, of sample_env sample_bootstrap] by simp
qed

text \<open>
  C3, as the code has it. A storage item that is missing or empty, or whose text parses
  to a value without a truthy \<^verbatim>\<open>sqlLab\<close> member, counts as no browser state: the item is
  left as it is and the state is the one computed from the server's data alone. Nothing
  catches an exception, however: on text that is not JSON the \<^verbatim>\<open>SyntaxError\<close> of
  \<^verbatim>\<open>JSON.parse\<close> leaves the function, and a \<^verbatim>\<open>sqlLab\<close> member without
  \<^verbatim>\<open>queryEditors\<close> makes it throw a \<^verbatim>\<open>TypeError\<close>.
\<close>

theorem legacy_absent_or_unusable:
  "getInitialState e Missing b = Inr (Missing, assemble e b (server_parts e b))
   \<and> getInitialState e EmptyText b = Inr (EmptyText, assemble e b (server_parts e b))
   \<and> (\<forall>d. \<not> truthy (get d ''sqlLab'')
          \<longrightarrow> getInitialState e (Parsed d) b = Inr (Parsed d, assemble e b (server_parts e b)))
   \<and> getInitialState e InvalidJSON b = Inl SyntaxError
   \<and> (\<forall>d. truthy (get d ''sqlLab'') \<and> nullish (get (get d ''sqlLab'') ''queryEditors'')
          \<longrightarrow> getInitialState e (Parsed d) b = Inl TypeError)"
proof (intro conjI)
  show "getInitialState e Missing b = Inr (Missing, assemble e b (server_parts e b))"
    by (simp add: getInitialState_def)
  show "getInitialState e EmptyText b = Inr (EmptyText, assemble e b (server_parts e b))"
    by (simp add: getInitialState_def)
  show "\<forall>d. \<not> truthy (get d ''sqlLab'')
          \<longrightarrow> getInitialState e (Parsed d) b = Inr (Parsed d, assemble e b (server_parts e b))"
    by (simp add: getInitialState_no_sqlLab)
  show "getInitialState e InvalidJSON b = Inl SyntaxError"
    by (simp add: getInitialState_def)
  show "\<forall>d. truthy (get d ''sqlLab'') \<and> nullish (get (get d ''sqlLab'') ''queryEditors'')
          \<longrightarrow> getInitialState e (Parsed d) b = Inl TypeError"
    by (simp add: getInitialState_sqlLab and_then_def access_def)
qed

text \<open>
  The instance: the JSON texts \<^verbatim>\<open>{"other": 1}\<close> (no \<^verbatim>\<open>sqlLab\<close>) and \<^verbatim>\<open>{"sqlLab": {}}\<close>
  (no \<^verbatim>\<open>queryEditors\<close>).
\<close>

theorem legacy_absent_or_unusable_witness:
  "\<not> truthy (get (JObj [(''other'', JNum 1)]) ''sqlLab'')
   \<and> getInitialState sample_env (Parsed (JObj [(''other'', JNum 1)])) sample_bootstrap
       = Inr (Parsed (JObj [(''other'', JNum 1)]),
              assemble sample_env sample_bootstrap (server_parts sample_env sample_bootstrap))
   \<and> truthy (get (JObj [(''sqlLab'', JObj [])]) ''sqlLab'')
   \<and> nullish (get (get (JObj [(''sqlLab'', JObj [])]) ''sqlLab'') ''queryEditors'')
   \<and> getInitialState sample_env (Parsed (JObj [(''sqlLab'', JObj [])])) sample_bootstrap
       = Inl TypeError"
proof -
  have h1: "\<not> truthy (get (JObj [(''other'', JNum 1)]) ''sqlLab'')"
    by (simp add: eval_simps)
  have h2: "truthy (get (JObj [(''sqlLab'', JObj [])]) ''sqlLab'')"
    by (simp add: eval_simps)
  have h3: "nullish (get (get (JObj [(''sqlLab'', JObj [])]) ''sqlLab'') ''queryEditors'')"
    by (simp add: eval_simps)
  show ?thesis
    using h1 h2 h3 legacy_absent_or_unusable [of sample_env sample_bootstrap] by blast
qed

text \<open>
  C3 as stated fails: with the text \<^verbatim>\<open>{\<close> in the storage item the function throws a
  \<^verbatim>\<open>SyntaxError\<close>, and with the text \<^verbatim>\<open>{"sqlLab": {}}\<close> a \<^verbatim>\<open>TypeError\<close>; in neither
  case does it return the state computed from the server's data.
\<close>

theorem malformed_legacy_raises:
  "getInitialState sample_env InvalidJSON sample_bootstrap = Inl SyntaxError
   \<and> getInitialState sample_env (Parsed (JObj [(''sqlLab'', JObj [])])) sample_bootstrap
       = Inl TypeError
   \<and> getInitialState sample_env Missing sample_bootstrap
       = Inr (Missing, assemble sample_env sample_bootstrap (server_parts sample_env sample_bootstrap))"
  by (simp add: getInitialState_def eval_simps)

section \<open>Tables of the active tab\<close>

lemma lookup_Nil [simp]: "lookup [] k = JUndefined"
  by (simp add: lookup_def)

lemma lookup_normal_copy: "normal m \<Longrightarrow> lookup (spread [] (JObj m)) k = lookup m k"
  by (simp add: spread_Nil_normal)

lemma table_step_normal:
  "normal T \<Longrightarrow> normal (put k v (spread [] (JObj T)))"
  by (simp add: normal_put normal_spread)

lemma server_tables_fold_normal:
  "normal T \<Longrightarrow> normal (foldl (\<lambda>tables tableSchema.
              (case tsc_description tableSchema of
                 None \<Rightarrow> tables
               | Some description \<Rightarrow>
                   put (Number_toString (tsc_id tableSchema))
                     (JObj (table_of tableSchema description))
                     (spread [] (JObj tables)))) T xs)"
  by (induction xs arbitrary: T) (auto simp: table_step_normal split: option.splits)

lemma server_tables_normal: "normal (server_tables activeTab)"
  by (cases activeTab) (simp_all add: server_tables_def server_tables_fold_normal)

lemma server_tables_fold_lookup:
  "normal T \<Longrightarrow>
   lookup (foldl (\<lambda>tables tableSchema.
              (case tsc_description tableSchema of
                 None \<Rightarrow> tables
               | Some description \<Rightarrow>
                   put (Number_toString (tsc_id tableSchema))
                     (JObj (table_of tableSchema description))
                     (spread [] (JObj tables)))) T xs) (Number_toString i)
   = (case find (\<lambda>s. tsc_description s \<noteq> None \<and> tsc_id s = i) (rev xs) of
        None \<Rightarrow> lookup T (Number_toString i)
      | Some s \<Rightarrow> (case tsc_description s of None \<Rightarrow> JUndefined | Some d \<Rightarrow> JObj (table_of s d)))"
proof (induction xs rule: rev_induct)
  case Nil
  then show ?case by simp
next
  case (snoc x xs)
  let ?step = "\<lambda>tables tableSchema.
              (case tsc_description tableSchema of
                 None \<Rightarrow> tables
               | Some description \<Rightarrow>
                   put (Number_toString (tsc_id tableSchema))
                     (JObj (table_of tableSchema description))
                     (spread [] (JObj tables)))"
  have n: "normal (foldl ?step T xs)" using snoc.prems by (rule server_tables_fold_normal)
  show ?case
  proof (cases "tsc_description x")
    case None
    then show ?thesis using snoc by simp
  next
    case (Some d)
    then show ?thesis
      using snoc n by (auto simp: lookup_put lookup_normal_copy dest: Number_toString_inj)
  qed
qed

lemma find_filter_same:
  "find P (rev (filter Q xs)) = find (\<lambda>x. Q x \<and> P x) (rev xs)"
  by (induction xs rule: rev_induct) auto

lemma server_tables_lookup:
  "lookup (server_tables (Some a)) (Number_toString i)
   = (case find (\<lambda>s. tsc_description s \<noteq> None \<and> tsc_id s = i) (rev (at_table_schemas a)) of
        None \<Rightarrow> JUndefined
      | Some s \<Rightarrow> (case tsc_description s of None \<Rightarrow> JUndefined | Some d \<Rightarrow> JObj (table_of s d)))"
proof -
  have "find (\<lambda>s. tsc_description s \<noteq> None \<and> tsc_id s = i)
          (rev (filter (\<lambda>s. tsc_description s \<noteq> None) (at_table_schemas a)))
        = find (\<lambda>s. tsc_description s \<noteq> None \<and> tsc_id s = i) (rev (at_table_schemas a))"
    by (simp add: find_filter_same cong: conj_cong)
  then show ?thesis
    by (simp add: server_tables_def server_tables_fold_lookup split: option.splits)
qed

lemma server_tables_fold_keys:
  "normal T \<Longrightarrow>
   fst ` set (foldl (\<lambda>tables tableSchema.
              (case tsc_description tableSchema of
                 None \<Rightarrow> tables
               | Some description \<Rightarrow>
                   put (Number_toString (tsc_id tableSchema))
                     (JObj (table_of tableSchema description))
                     (spread [] (JObj tables)))) T xs)
   = fst ` set T \<union> (\<lambda>s. Number_toString (tsc_id s)) ` {s \<in> set xs. tsc_description s \<noteq> None}"
proof (induction xs rule: rev_induct)
  case Nil
  then show ?case by simp
next
  case (snoc x xs)
  let ?step = "\<lambda>tables tableSchema.
              (case tsc_description tableSchema of
                 None \<Rightarrow> tables
               | Some description \<Rightarrow>
                   put (Number_toString (tsc_id tableSchema))
                     (JObj (table_of tableSchema description))
                     (spread [] (JObj tables)))"
  have n: "normal (foldl ?step T xs)" using snoc.prems by (rule server_tables_fold_normal)
  show ?case
  proof (cases "tsc_description x")
    case None
    then show ?thesis using snoc by auto
  next
    case (Some d)
    then show ?thesis
      using snoc n by (auto simp: keys_put spread_Nil_normal)
  qed
qed

lemma server_tables_keys:
  "fst ` set (server_tables (Some a))
   = (\<lambda>s. Number_toString (tsc_id s)) ` {s \<in> set (at_table_schemas a). tsc_description s \<noteq> None}"
  by (auto simp: server_tables_def server_tables_fold_keys)

lemma get_JObj_normal: "normal m \<Longrightarrow> get (JObj m) k = lookup m k"
  by (simp add: literal_normal)

lemma table_of_normal: "normal (table_of s d)"
  by (simp add: table_of_def)

lemma normal_filter: "normal m \<Longrightarrow> normal (filter P m)"
  unfolding normal_def by (induction m) auto


lemma map_of_filter_key:
  "map_of (filter (\<lambda>(k, v). k \<noteq> x) m) k = (if k = x then None else map_of m k)"
  by (induction m) auto

lemma table_of_fields:
  "get (JObj (table_of s d)) ''expanded'' = tsc_expanded s"
  "get (JObj (table_of s d)) ''initialized'' = JBool True"
  "get (JObj (table_of s d)) ''dataPreviewQueryId'' = get (JObj d) ''dataPreviewQueryId''"
  "get (JObj (table_of s d)) ''persistData''
     = JObj (filter (\<lambda>(k, v). k \<noteq> ''dataPreviewQueryId'') (own_entries (JObj d)))"
  "get (JObj (table_of s d)) ''queryEditorId'' = JStr (Number_toString (tsc_tab_state_id s))"
  "get (JObj (table_of s d)) ''id'' = JNum (tsc_id s)"
  by (simp_all add: get_JObj_normal table_of_normal) (simp_all add: table_of_def eval_simps)

lemma persistData_fields:
  "own (JObj (filter (\<lambda>(k, v). k \<noteq> ''dataPreviewQueryId'') (own_entries (JObj d)))) k
   = (if k = ''dataPreviewQueryId'' then None else own (JObj d) k)"
proof -
  have "normal (filter (\<lambda>(k, v). k \<noteq> ''dataPreviewQueryId'') (literal d))"
    by (simp add: normal_filter)
  then show ?thesis by (simp add: own_def literal_normal map_of_filter_key)
qed

text \<open>
  C8. The mapping built from the active tab has exactly the keys of the schema entries
  with a non-null description, and under the key of table id \<open>i\<close> the table of the last
  such entry with that id. In the table of an entry, \<^verbatim>\<open>dataPreviewQueryId\<close> is read from the
  description, \<^verbatim>\<open>persistData\<close> holds the other properties of the description and only
  those, \<^verbatim>\<open>expanded\<close> is the entry's flag as it is, and \<^verbatim>\<open>initialized\<close> is true. Without
  active tab the mapping is empty. This stage cannot throw: on the server's data alone
  the function returns, with these tables.
\<close>

theorem table_materializer:
  "server_tables None = []
   \<and> fst ` set (server_tables (Some a))
       = (\<lambda>s. Number_toString (tsc_id s)) ` {s \<in> set (at_table_schemas a). tsc_description s \<noteq> None}
   \<and> lookup (server_tables (Some a)) (Number_toString i)
       = (case find (\<lambda>s. tsc_description s \<noteq> None \<and> tsc_id s = i) (rev (at_table_schemas a)) of
            None \<Rightarrow> JUndefined
          | Some s \<Rightarrow> (case tsc_description s of None \<Rightarrow> JUndefined | Some d \<Rightarrow> JObj (table_of s d)))
   \<and> get (JObj (table_of s d)) ''dataPreviewQueryId'' = get (JObj d) ''dataPreviewQueryId''
   \<and> (\<exists>persistData. get (JObj (table_of s d)) ''persistData'' = JObj persistData
         \<and> (\<forall>k. own (JObj persistData) k
                 = (if k = ''dataPreviewQueryId'' then None else own (JObj d) k)))
   \<and> get (JObj (table_of s d)) ''expanded'' = tsc_expanded s
   \<and> get (JObj (table_of s d)) ''initialized'' = JBool True
   \<and> (\<exists>st. getInitialState e Missing b = Inr (Missing, st)
         \<and> sl_tables (st_sqlLab st) = map snd (server_tables (bd_active_tab b)))"
proof (intro conjI)
  show "server_tables None = []" by (simp add: server_tables_def)
  show "fst ` set (server_tables (Some a))
       = (\<lambda>s. Number_toString (tsc_id s)) ` {s \<in> set (at_table_schemas a). tsc_description s \<noteq> None}"
    by (rule server_tables_keys)
  show "lookup (server_tables (Some a)) (Number_toString i)
       = (case find (\<lambda>s. tsc_description s \<noteq> None \<and> tsc_id s = i) (rev (at_table_schemas a)) of
            None \<Rightarrow> JUndefined
          | Some s \<Rightarrow> (case tsc_description s of None \<Rightarrow> JUndefined | Some d \<Rightarrow> JObj (table_of s d)))"
    by (rule server_tables_lookup)
  show "get (JObj (table_of s d)) ''dataPreviewQueryId'' = get (JObj d) ''dataPreviewQueryId''"
    by (rule table_of_fields)
  show "\<exists>persistData. get (JObj (table_of s d)) ''persistData'' = JObj persistData
         \<and> (\<forall>k. own (JObj persistData) k
                 = (if k = ''dataPreviewQueryId'' then None else own (JObj d) k))"
    using table_of_fields(4) persistData_fields by blast
  show "get (JObj (table_of s d)) ''expanded'' = tsc_expanded s" by (rule table_of_fields)
  show "get (JObj (table_of s d)) ''initialized'' = JBool True" by (rule table_of_fields)
  have "sl_tables (st_sqlLab (assemble e b (server_parts e b))) = map snd (server_tables (bd_active_tab b))"
    by (simp add: assemble_def server_parts_def Let_def literal_normal server_tables_normal)
  then show "\<exists>st. getInitialState e Missing b = Inr (Missing, st)
         \<and> sl_tables (st_sqlLab st) = map snd (server_tables (bd_active_tab b))"
    by (simp add: getInitialState_def)
qed

section \<open>The legacy tables\<close>

lemma foldM_append:
  "foldM f s (xs @ ys) = (case foldM f s xs of Inl e \<Rightarrow> Inl e | Inr s' \<Rightarrow> foldM f s' ys)"
  by (induction xs arbitrary: s) (auto split: sum.splits)

lemma foldM_split:
  assumes "foldM f s (pre @ x # post) = Inr r"
  obtains s1 s2 where "foldM f s pre = Inr s1" "f s1 x = Inr s2" "foldM f s2 post = Inr r"
  using assms by (auto simp: foldM_append split: sum.splits)

lemma strict_eq_same: "strict_eq a b \<Longrightarrow> a = b"
  by (cases a; cases b) simp_all

lemma Set_has_snoc: "Set_has (xs @ [x]) q = (Set_has xs q \<or> strict_eq x q)"
  by (auto simp: Set_has_def list_ex_iff)

lemma Set_has_Nil [simp]: "\<not> Set_has [] q"
  by (simp add: Set_has_def)

lemma merge_table_Inr:
  "merge_table T (seen, m) x = Inr r \<longleftrightarrow>
     \<not> nullish x \<and> (\<exists>key. ToString (get x ''id'') = Inr key \<and>
       r = (if Set_has seen (get x ''queryEditorId'') then seen else seen @ [get x ''queryEditorId''],
            put key (JObj (put ''expanded'' (JBool (\<not> Set_has seen (get x ''queryEditorId'')))
                             (spread (spread [] (lookup T key)) x)))
              (spread [] (JObj m))))"
  by (auto simp: merge_table_def and_then_def access_def Let_def split: sum.splits)

lemma merge_table_seen:
  assumes "merge_table T (seen, m) x = Inr (seen', m')"
  shows "Set_has seen' q = (Set_has seen q \<or> strict_eq (get x ''queryEditorId'') q)"
proof (cases "Set_has seen (get x ''queryEditorId'')")
  case True
  then have "seen' = seen" using assms by (auto simp: merge_table_Inr)
  moreover have "strict_eq (get x ''queryEditorId'') q \<Longrightarrow> Set_has seen q"
    using True strict_eq_same by fastforce
  ultimately show ?thesis by blast
next
  case False
  then have "seen' = seen @ [get x ''queryEditorId'']" using assms by (auto simp: merge_table_Inr)
  then show ?thesis by (simp add: Set_has_snoc)
qed

lemma merge_table_normal:
  assumes "merge_table T (seen, m) x = Inr (seen', m')"
  shows "normal m'"
  using assms by (auto simp: merge_table_Inr normal_put normal_spread)

lemma foldM_merge_table_seen:
  "foldM (merge_table T) (seen0, m0) xs = Inr (seen, m) \<Longrightarrow>
   Set_has seen q = (Set_has seen0 q \<or> (\<exists>y \<in> set xs. strict_eq (get y ''queryEditorId'') q))"
proof (induction xs arbitrary: seen0 m0)
  case Nil
  then show ?case by simp
next
  case (Cons x xs)
  then obtain seen1 m1 where step: "merge_table T (seen0, m0) x = Inr (seen1, m1)"
    and rest: "foldM (merge_table T) (seen1, m1) xs = Inr (seen, m)"
    by (auto split: sum.splits)
  show ?case using Cons.IH [OF rest] merge_table_seen [OF step, of q] by auto
qed

lemma foldM_merge_table_frame:
  "foldM (merge_table T) (seen0, m0) xs = Inr (seen, m) \<Longrightarrow> normal m0 \<Longrightarrow>
   \<forall>y \<in> set xs. ToString (get y ''id'') \<noteq> Inr key \<Longrightarrow> lookup m key = lookup m0 key"
proof (induction xs arbitrary: seen0 m0)
  case Nil
  then show ?case by simp
next
  case (Cons x xs)
  then obtain seen1 m1 where step: "merge_table T (seen0, m0) x = Inr (seen1, m1)"
    and rest: "foldM (merge_table T) (seen1, m1) xs = Inr (seen, m)"
    by (auto split: sum.splits)
  have "lookup m1 key = lookup m0 key"
    using step Cons.prems(2,3) by (auto simp: merge_table_Inr lookup_put spread_Nil_normal)
  moreover have "lookup m key = lookup m1 key"
    using Cons.IH [OF rest merge_table_normal [OF step]] Cons.prems(3) by simp
  ultimately show ?case by simp
qed

text \<open>
  C2. While the legacy tables are merged in their given order, the table stored under
  an entry's key gets \<^verbatim>\<open>expanded = true\<close> exactly when no earlier entry of the list has
  the same \<^verbatim>\<open>queryEditorId\<close>, whatever \<^verbatim>\<open>expanded\<close> the entry itself carried: the first
  entry seen for an editor is expanded, every later entry of that editor is not, so of
  the entries of one editor at most one is expanded. (\<open>pre\<close> are the entries before \<open>x\<close>,
  \<open>post\<close> those after it; the table under a key is that of the last entry with the key.)
\<close>

theorem expansion_tie_break:
  assumes run: "foldM (merge_table tables) ([], tables) (pre @ x # post) = Inr (expandedTables, merged)"
    and key: "ToString (get x ''id'') = Inr key"
    and last: "\<forall>y \<in> set post. ToString (get y ''id'') \<noteq> Inr key"
  shows "get (lookup merged key) ''expanded''
         = JBool (\<not> (\<exists>y \<in> set pre. strict_eq (get y ''queryEditorId'') (get x ''queryEditorId'')))"
proof -
  from run obtain s1 s2
    where pre: "foldM (merge_table tables) ([], tables) pre = Inr s1"
      and step: "merge_table tables s1 x = Inr s2"
      and post: "foldM (merge_table tables) s2 post = Inr (expandedTables, merged)"
    by (rule foldM_split)
  obtain seen1 m1 where s1: "s1 = (seen1, m1)" by (cases s1)
  obtain seen2 m2 where s2: "s2 = (seen2, m2)" by (cases s2)
  have seen: "Set_has seen1 (get x ''queryEditorId'')
      = (\<exists>y \<in> set pre. strict_eq (get y ''queryEditorId'') (get x ''queryEditorId''))"
    using foldM_merge_table_seen [OF pre [unfolded s1]] by simp
  have m2: "lookup m2 key = JObj (put ''expanded'' (JBool (\<not> Set_has seen1 (get x ''queryEditorId'')))
                             (spread (spread [] (lookup tables key)) x))"
    using step key by (auto simp: s1 s2 merge_table_Inr lookup_put)
  have "lookup merged key = lookup m2 key"
    using foldM_merge_table_frame [OF post [unfolded s2] merge_table_normal [OF step [unfolded s1 s2]] last] .
  then show ?thesis
    using m2 seen by (simp add: literal_normal normal_put normal_spread lookup_put)
qed

lemma dec_small_values:
  "dec (Suc 0) = ''1''" "dec 2 = ''2''" "dec 3 = ''3''" "dec 5 = ''5''"
  by (simp_all add: dec_small digit_char_cases)

lemma array_index_small_values:
  "array_index ''1'' = Some (Suc 0)" "array_index ''2'' = Some 2" "array_index ''3'' = Some 3"
  "array_index ''5'' = Some 5"
  using array_index_dec [of "Suc 0"] array_index_dec [of 2] array_index_dec [of 3] array_index_dec [of 5]
  by (simp_all add: dec_small_values)

lemma Number_toString_small_values:
  "Number_toString 1 = ''1''" "Number_toString 2 = ''2''" "Number_toString 3 = ''3''"
  "Number_toString 5 = ''5''"
  by (simp_all add: Number_toString_def dec_small_values)

text \<open>
  The instance: for the legacy tables
  \<^verbatim>\<open>[{id:1,queryEditorId:"A"},{id:2,queryEditorId:"A"},{id:3,queryEditorId:"B"}]\<close>
  table 1 is expanded, table 2 is not, table 3 is.
\<close>

theorem expansion_tie_break_witness:
  "\<exists>expandedTables merged.
     foldM (merge_table []) ([], []) legacy_tables_example = Inr (expandedTables, merged)
     \<and> get (lookup merged ''1'') ''expanded'' = JBool True
     \<and> get (lookup merged ''2'') ''expanded'' = JBool False
     \<and> get (lookup merged ''3'') ''expanded'' = JBool True"
proof -
  let ?t1 = "JObj [(''id'', JNum 1), (''queryEditorId'', JStr ''A'')]"
  let ?t2 = "JObj [(''id'', JNum 2), (''queryEditorId'', JStr ''A'')]"
  let ?t3 = "JObj [(''id'', JNum 3), (''queryEditorId'', JStr ''B'')]"
  have "\<exists>r. foldM (merge_table []) ([], []) legacy_tables_example = Inr r"
    by (simp add: legacy_tables_example_def merge_table_def eval_simps Set_has_def
        Number_toString_small_values array_index_small_values)
  then obtain expandedTables merged
    where run: "foldM (merge_table []) ([], []) legacy_tables_example = Inr (expandedTables, merged)"
    by auto
  have k1: "ToString (get ?t1 ''id'') = Inr ''1''" and k2: "ToString (get ?t2 ''id'') = Inr ''2''"
    and k3: "ToString (get ?t3 ''id'') = Inr ''3''"
    by (simp_all add: eval_simps Number_toString_small_values)
  have run1: "foldM (merge_table []) ([], []) ([] @ ?t1 # [?t2, ?t3]) = Inr (expandedTables, merged)"
    and run2: "foldM (merge_table []) ([], []) ([?t1] @ ?t2 # [?t3]) = Inr (expandedTables, merged)"
    and run3: "foldM (merge_table []) ([], []) ([?t1, ?t2] @ ?t3 # []) = Inr (expandedTables, merged)"
    using run by (simp_all add: legacy_tables_example_def)
  have l1: "\<forall>y \<in> set [?t2, ?t3]. ToString (get y ''id'') \<noteq> Inr ''1''"
    and l2: "\<forall>y \<in> set [?t3]. ToString (get y ''id'') \<noteq> Inr ''2''"
    and l3: "\<forall>y \<in> set []. ToString (get y ''id'') \<noteq> Inr ''3''"
    by (simp_all add: eval_simps Number_toString_small_values)
  have "get (lookup merged ''1'') ''expanded'' = JBool True"
    using expansion_tie_break [OF run1 k1 l1] by simp
  moreover have "get (lookup merged ''2'') ''expanded'' = JBool False"
    using expansion_tie_break [OF run2 k2 l2] by (simp add: eval_simps)
  moreover have "get (lookup merged ''3'') ''expanded'' = JBool True"
    using expansion_tie_break [OF run3 k3 l3] by (simp add: eval_simps)
  ultimately show ?thesis using run by blast
qed

section \<open>The legacy queries\<close>










section \<open>The legacy editors\<close>

lemma server_queryEditors_normal: "normal (server_queryEditors t conf activeTab tabs)"
proof -
  have "normal m \<Longrightarrow> normal (foldl (\<lambda>queryEditors tab.
         put (Number_toString (ts_id tab)) (JObj (queryEditor_of t conf activeTab tab))
           (spread [] (JObj queryEditors))) m tabs)" for m
    by (induction tabs arbitrary: m) (simp_all add: normal_put normal_spread)
  then show ?thesis by (simp add: server_queryEditors_def)
qed

lemma merge_queryEditor_Inr:
  "merge_queryEditor u m x = Inr r \<longleftrightarrow>
     \<not> nullish x \<and> (\<exists>key. ToString (get x ''id'') = Inr key \<and>
       r = put key
             (JObj
               (put ''loaded'' (JBool True)
                 (put ''inLocalStorage'' (JBool True)
                   (spread
                     (put ''name''
                        (if truthy (get x ''title'') then get x ''title'' else get x ''name'')
                        (spread (spread [] (lookup m key)) x))
                     (if strict_eq (get u ''id'') (get x ''id'') then u else JBool False)))))
             (spread [] (JObj m)))"
  by (auto simp: merge_queryEditor_def and_then_def access_def split: sum.splits)

lemma own_primitive [simp]: "own (JBool b) f = None" "own JUndefined f = None" "own JNull f = None"
  "own (JNum n) f = None"
  by (simp_all add: own_def)

lemma merged_entry_fields:
  "lookup (put ''loaded'' (JBool True)
            (put ''inLocalStorage'' (JBool True)
              (spread
                (put ''name''
                   (if truthy (get x ''title'') then get x ''title'' else get x ''name'')
                   (spread (spread [] existing) x))
                (if strict_eq (get u ''id'') (get x ''id'') then u else JBool False)))) f
   = merged_field u existing x f"
  by (simp add: merged_field_def lookup_put lookup_spread split: option.splits)

lemma merge_queryEditor_result:
  assumes "merge_queryEditor u m x = Inr r" "ToString (get x ''id'') = Inr key"
  shows "\<exists>entry. r = put key (JObj entry) (spread [] (JObj m))
           \<and> (\<forall>f. lookup entry f = merged_field u (lookup m key) x f)"
proof -
  let ?entry = "put ''loaded'' (JBool True)
                 (put ''inLocalStorage'' (JBool True)
                   (spread
                     (put ''name''
                        (if truthy (get x ''title'') then get x ''title'' else get x ''name'')
                        (spread (spread [] (lookup m key)) x))
                     (if strict_eq (get u ''id'') (get x ''id'') then u else JBool False)))"
  have "r = put key (JObj ?entry) (spread [] (JObj m))"
    using assms by (auto simp: merge_queryEditor_Inr)
  moreover have "\<forall>f. lookup ?entry f = merged_field u (lookup m key) x f"
    by (simp only: merged_entry_fields) simp
  ultimately show ?thesis by blast
qed

lemma merge_queryEditor_normal:
  "merge_queryEditor u m x = Inr m' \<Longrightarrow> normal m'"
  by (auto simp: merge_queryEditor_Inr normal_put normal_spread)

lemma foldM_merge_queryEditor_normal:
  "foldM (merge_queryEditor u) m0 xs = Inr m \<Longrightarrow> normal m0 \<Longrightarrow> normal m"
proof (induction xs arbitrary: m0)
  case Nil
  then show ?case by simp
next
  case (Cons x xs)
  then obtain m1 where step: "merge_queryEditor u m0 x = Inr m1"
    and rest: "foldM (merge_queryEditor u) m1 xs = Inr m"
    by (auto split: sum.splits)
  show ?case using Cons.IH [OF rest merge_queryEditor_normal [OF step]] .
qed

lemma merge_queryEditor_other_key:
  assumes "merge_queryEditor u m x = Inr m'" "normal m" "ToString (get x ''id'') \<noteq> Inr k"
  shows "lookup m' k = lookup m k"
  using assms by (auto simp: merge_queryEditor_Inr lookup_put spread_Nil_normal)

lemma foldM_merge_queryEditor_frame:
  "foldM (merge_queryEditor u) m0 xs = Inr m \<Longrightarrow> normal m0 \<Longrightarrow>
   \<forall>y \<in> set xs. ToString (get y ''id'') \<noteq> Inr k \<Longrightarrow> lookup m k = lookup m0 k"
proof (induction xs arbitrary: m0)
  case Nil
  then show ?case by simp
next
  case (Cons x xs)
  then obtain m1 where step: "merge_queryEditor u m0 x = Inr m1"
    and rest: "foldM (merge_queryEditor u) m1 xs = Inr m"
    by (auto split: sum.splits)
  have "lookup m1 k = lookup m0 k"
    using merge_queryEditor_other_key [OF step Cons.prems(2)] Cons.prems(3) by simp
  moreover have "lookup m k = lookup m1 k"
    using Cons.IH [OF rest merge_queryEditor_normal [OF step]] Cons.prems(3) by simp
  ultimately show ?case by simp
qed

text \<open>
  C1, as the code has it. After the loop over the legacy editors, the editor stored
  under the key of an entry \<open>qe\<close> (the last entry with that key) is \<open>merged_field\<close> of the
  editor stored under that key just before \<open>qe\<close> was merged, which is the server's editor
  when no earlier legacy entry has the key and nothing when there is no such editor: the
  existing fields, overwritten by the fields of \<open>qe\<close>, then \<^verbatim>\<open>name\<close> set to
  \<^verbatim>\<open>qe.title || qe.name\<close>, then the fields of the unsaved editor when its \<^verbatim>\<open>id\<close> is
  strictly equal to that of \<open>qe\<close>, then \<^verbatim>\<open>inLocalStorage\<close> and \<^verbatim>\<open>loaded\<close> set to true.
  The property \<^verbatim>\<open>name\<close> is always written: it is the legacy title when that is truthy
  and otherwise the legacy entry's own name, \<^verbatim>\<open>undefined\<close> when the entry has neither.
\<close>

theorem editor_overlay:
  assumes run: "foldM (merge_queryEditor unsaved) (server_queryEditors t conf activeTab tabs)
                  (pre @ qe # post) = Inr queryEditors"
    and key: "ToString (get qe ''id'') = Inr key"
    and last: "\<forall>y \<in> set post. ToString (get y ''id'') \<noteq> Inr key"
  shows "\<exists>before entry.
           foldM (merge_queryEditor unsaved) (server_queryEditors t conf activeTab tabs) pre
             = Inr before
         \<and> ((\<forall>y \<in> set pre. ToString (get y ''id'') \<noteq> Inr key)
              \<longrightarrow> lookup before key = lookup (server_queryEditors t conf activeTab tabs) key)
         \<and> lookup queryEditors key = JObj entry
         \<and> (\<forall>f. lookup entry f = merged_field unsaved (lookup before key) qe f)"
proof -
  let ?server = "server_queryEditors t conf activeTab tabs"
  from run obtain before m2
    where pre: "foldM (merge_queryEditor unsaved) ?server pre = Inr before"
      and step: "merge_queryEditor unsaved before qe = Inr m2"
      and post: "foldM (merge_queryEditor unsaved) m2 post = Inr queryEditors"
    by (rule foldM_split)
  have nb: "normal before"
    using foldM_merge_queryEditor_normal [OF pre server_queryEditors_normal] .
  have first: "(\<forall>y \<in> set pre. ToString (get y ''id'') \<noteq> Inr key)
                 \<longrightarrow> lookup before key = lookup ?server key"
    using foldM_merge_queryEditor_frame [OF pre server_queryEditors_normal] by blast
  obtain entry where m2: "lookup m2 key = JObj entry"
    and entry: "\<forall>f. lookup entry f = merged_field unsaved (lookup before key) qe f"
    using merge_queryEditor_result [OF step key] by (auto simp: lookup_put)
  have "lookup queryEditors key = lookup m2 key"
    using foldM_merge_queryEditor_frame [OF post merge_queryEditor_normal [OF step] last] .
  then show ?thesis using pre first m2 entry by auto
qed

text \<open>
  The instance: the server's editor \<^verbatim>\<open>{id: 5, name: "Query 5"}\<close> and the legacy editor
  \<^verbatim>\<open>{id: 5, title: "Renamed"}\<close> merge to an editor with the name \<^verbatim>\<open>Renamed\<close>,
  \<^verbatim>\<open>inLocalStorage\<close> and \<^verbatim>\<open>loaded\<close> true, and the server's other fields.
\<close>

theorem editor_overlay_witness:
  "\<exists>queryEditors entry.
     foldM (merge_queryEditor (JObj []))
       (server_queryEditors (\<lambda>s. s) [] None [\<lparr> ts_id = 5, ts_label = JStr ''Query 5'' \<rparr>])
       [JObj [(''id'', JNum 5), (''title'', JStr ''Renamed'')]] = Inr queryEditors
     \<and> lookup queryEditors ''5'' = JObj entry
     \<and> lookup entry ''name'' = JStr ''Renamed''
     \<and> lookup entry ''inLocalStorage'' = JBool True
     \<and> lookup entry ''loaded'' = JBool True
     \<and> lookup entry ''autorun'' = JBool False"
proof -
  let ?qe = "JObj [(''id'', JNum 5), (''title'', JStr ''Renamed'')]"
  let ?server = "server_queryEditors (\<lambda>s. s) [] None [\<lparr> ts_id = 5, ts_label = JStr ''Query 5'' \<rparr>]"
  have "\<exists>r. foldM (merge_queryEditor (JObj [])) ?server ([] @ ?qe # []) = Inr r"
    by (simp add: merge_queryEditor_def eval_simps Number_toString_small_values)
  then obtain queryEditors
    where run: "foldM (merge_queryEditor (JObj [])) ?server ([] @ ?qe # []) = Inr queryEditors"
    by auto
  have key: "ToString (get ?qe ''id'') = Inr ''5''"
    by (simp add: eval_simps Number_toString_small_values)
  have last: "\<forall>y \<in> set []. ToString (get y ''id'') \<noteq> Inr ''5''" by simp
  obtain before entry
    where before: "foldM (merge_queryEditor (JObj [])) ?server [] = Inr before"
      and entry: "lookup queryEditors ''5'' = JObj entry"
      and fields: "\<forall>f. lookup entry f = merged_field (JObj []) (lookup before ''5'') ?qe f"
    using editor_overlay [OF run key last] by blast
  have existing: "lookup before ''5'' = lookup ?server ''5''" using before by simp
  have "lookup entry ''name'' = JStr ''Renamed''"
    using fields by (simp add: merged_field_def eval_simps)
  moreover have "lookup entry ''inLocalStorage'' = JBool True"
    using fields by (simp add: merged_field_def)
  moreover have "lookup entry ''loaded'' = JBool True"
    using fields by (simp add: merged_field_def)
  moreover have "merged_field (JObj []) (lookup ?server ''5'') ?qe ''autorun'' = JBool False"
    by (simp add: merged_field_def eval_simps server_queryEditors_def queryEditor_of_def
        defaultQueryEditor_def Number_toString_small_values array_index_small_values)
  then have "lookup entry ''autorun'' = JBool False"
    using fields existing by simp
  ultimately show ?thesis using run entry by auto
qed

text \<open>
  C1 as stated fails where a legacy entry has neither \<^verbatim>\<open>title\<close> nor \<^verbatim>\<open>name\<close>: the server's
  editor 5 is named \<^verbatim>\<open>Query 5\<close>, the legacy entry \<^verbatim>\<open>{id: "5", sql: "SELECT 1"}\<close> has no
  field that would overwrite the name, and yet the merged editor's name is
  \<^verbatim>\<open>undefined\<close>.
\<close>

theorem editor_name_not_kept:
  "map (\<lambda>ed. get ed ''name'')
     (returned_editors (getInitialState sample_env Missing sample_bootstrap)) = [JStr ''Query 5'']
   \<and> own (JObj [(''id'', JStr ''5''), (''sql'', JStr ''SELECT 1'')]) ''title'' = None
   \<and> own (JObj [(''id'', JStr ''5''), (''sql'', JStr ''SELECT 1'')]) ''name'' = None
   \<and> map (\<lambda>ed. get ed ''name'')
       (returned_editors (getInitialState sample_env
          (Parsed (editor_example_legacy (JObj [(''id'', JStr ''5''), (''sql'', JStr ''SELECT 1'')])))
          sample_bootstrap)) = [JUndefined]"
  by (simp add: returned_editors_def getInitialState_def editor_example_legacy_def
      sample_bootstrap_def sample_env_def eval_simps overlay_def
      server_parts_def server_queryEditors_def queryEditor_of_def defaultQueryEditor_def
      server_tables_def assemble_def merge_queryEditor_def Object_values_def
      Number_toString_small_values array_index_small_values Let_def)

section \<open>The unsaved editor\<close>

lemma spread_nothing [simp]: "spread m (JBool b) = m" "spread m (JObj []) = m"
  by (simp_all add: spread_def literal_def)

lemma merge_queryEditor_same_error:
  "(\<exists>r. merge_queryEditor u m x = Inr r) \<longleftrightarrow> (\<exists>r. merge_queryEditor u' m' x = Inr r)"
  by (simp add: merge_queryEditor_Inr)

lemma foldM_merge_queryEditor_same_error:
  "foldM (merge_queryEditor u) m xs = Inr r \<Longrightarrow> \<exists>r'. foldM (merge_queryEditor u') m' xs = Inr r'"
proof (induction xs arbitrary: m m')
  case Nil
  then show ?case by simp
next
  case (Cons x xs)
  then obtain m1 where step: "merge_queryEditor u m x = Inr m1"
    and rest: "foldM (merge_queryEditor u) m1 xs = Inr r"
    by (auto split: sum.splits)
  obtain m1' where step': "merge_queryEditor u' m' x = Inr m1'"
    using step merge_queryEditor_same_error [of u m x u' m'] by blast
  show ?case using Cons.IH [OF rest, of m1'] step' by simp
qed

lemma merge_queryEditor_at_key:
  assumes "merge_queryEditor u m x = Inr r" "ToString (get x ''id'') = Inr k"
  shows "lookup r k = JObj
           (put ''loaded'' (JBool True)
             (put ''inLocalStorage'' (JBool True)
               (spread
                 (put ''name''
                    (if truthy (get x ''title'') then get x ''title'' else get x ''name'')
                    (spread (spread [] (lookup m k)) x))
                 (if strict_eq (get u ''id'') (get x ''id'') then u else JBool False))))"
  using assms by (auto simp: merge_queryEditor_Inr lookup_put)

lemma foldM_merge_queryEditor_patch_frame:
  "foldM (merge_queryEditor u) a xs = Inr m1 \<Longrightarrow> foldM (merge_queryEditor (JObj [])) b xs = Inr m2
   \<Longrightarrow> normal a \<Longrightarrow> normal b \<Longrightarrow> lookup a k = lookup b k
   \<Longrightarrow> \<forall>y \<in> set xs. ToString (get y ''id'') = Inr k \<longrightarrow> \<not> strict_eq (get u ''id'') (get y ''id'')
   \<Longrightarrow> lookup m1 k = lookup m2 k"
proof (induction xs arbitrary: a b)
  case Nil
  then show ?case by simp
next
  case (Cons x xs)
  from Cons.prems(1) obtain a1 where stepa: "merge_queryEditor u a x = Inr a1"
    and resta: "foldM (merge_queryEditor u) a1 xs = Inr m1"
    by (auto split: sum.splits)
  from Cons.prems(2) obtain b1 where stepb: "merge_queryEditor (JObj []) b x = Inr b1"
    and restb: "foldM (merge_queryEditor (JObj [])) b1 xs = Inr m2"
    by (auto split: sum.splits)
  have "lookup a1 k = lookup b1 k"
  proof (cases "ToString (get x ''id'') = Inr k")
    case True
    then have "\<not> strict_eq (get u ''id'') (get x ''id'')" using Cons.prems(6) by simp
    then show ?thesis
      using merge_queryEditor_at_key [OF stepa True] merge_queryEditor_at_key [OF stepb True]
        Cons.prems(5) by simp
  next
    case False
    then show ?thesis
      using merge_queryEditor_other_key [OF stepa Cons.prems(3) False]
        merge_queryEditor_other_key [OF stepb Cons.prems(4) False] Cons.prems(5) by simp
  qed
  then show ?case
    using Cons.IH [OF resta restb merge_queryEditor_normal [OF stepa]
        merge_queryEditor_normal [OF stepb]] Cons.prems(6) by simp
qed

lemma overlay_unsaved:
  "overlay sqlLab (u0, parts) = Inr (u, parts') \<Longrightarrow>
   u = (if truthy (get sqlLab ''unsavedQueryEditor'') then get sqlLab ''unsavedQueryEditor'' else u0)"
  by (cases parts; cases parts')
     (auto simp: overlay_def and_then_def Let_def split: sum.splits if_splits)

lemma assemble_unsaved:
  "sl_unsavedQueryEditor (st_sqlLab (assemble e b (u, parts))) = u"
  by (cases parts) (auto simp: assemble_def)

lemma server_parts_unsaved: "fst (server_parts e b) = JObj []"
  by (simp add: server_parts_def Let_def)

lemma getInitialState_unsaved:
  assumes "getInitialState e redux b = Inr (redux', st)"
  shows "sl_unsavedQueryEditor (st_sqlLab st)
         = (case redux of
              Parsed d \<Rightarrow>
                if truthy (get d ''sqlLab'')
                   \<and> \<not> strict_eq (get (get (get d ''sqlLab'') ''queryEditors'') ''length'') (JNum 0)
                   \<and> truthy (get (get d ''sqlLab'') ''unsavedQueryEditor'')
                then get (get d ''sqlLab'') ''unsavedQueryEditor'' else JObj []
            | _ \<Rightarrow> JObj [])"
proof -
  obtain parts0 where sp: "server_parts e b = (JObj [], parts0)"
    using server_parts_unsaved [of e b] by (cases "server_parts e b") auto
  show ?thesis
  proof (cases redux)
    case Missing
    then show ?thesis using assms by (auto simp: getInitialState_def sp assemble_unsaved)
  next
    case EmptyText
    then show ?thesis using assms by (auto simp: getInitialState_def sp assemble_unsaved)
  next
    case InvalidJSON
    then show ?thesis using assms by (simp add: getInitialState_def)
  next
    case (Parsed d)
    show ?thesis
    proof (cases "truthy (get d ''sqlLab'')")
      case False
      then show ?thesis
        using assms Parsed by (auto simp: getInitialState_no_sqlLab sp assemble_unsaved)
    next
      case True
      note sl = getInitialState_sqlLab [OF True, of e b]
      show ?thesis
      proof (cases "nullish (get (get d ''sqlLab'') ''queryEditors'')")
        case True
        then show ?thesis using assms Parsed sl by (simp add: and_then_def access_def)
      next
        case nn: False
        show ?thesis
        proof (cases "strict_eq (get (get (get d ''sqlLab'') ''queryEditors'') ''length'') (JNum 0)")
          case True
          then show ?thesis
            using assms Parsed sl nn \<open>truthy (get d ''sqlLab'')\<close>
            by (auto simp: and_then_def access_def sp assemble_unsaved)
        next
          case False
          then obtain u parts where ov: "overlay (get d ''sqlLab'') (JObj [], parts0) = Inr (u, parts)"
            and st: "st = assemble e b (u, parts)"
            using assms Parsed sl nn by (auto simp: and_then_def access_def sp split: sum.splits)
          show ?thesis
            using overlay_unsaved [OF ov] st False Parsed \<open>truthy (get d ''sqlLab'')\<close>
            by (simp add: assemble_unsaved)
        qed
      qed
    qed
  qed
qed

text \<open>
  C9, as the code has it. The unsaved editor is merged only into legacy editors whose
  \<^verbatim>\<open>id\<close> is strictly equal to its own: under every key none of whose legacy entries has
  such an id, the loop leaves the same editor as it does with the empty patch \<^verbatim>\<open>{}\<close>, and
  it completes with the one patch exactly when it completes with the other. Whenever the
  function returns, the returned \<^verbatim>\<open>unsavedQueryEditor\<close> is the legacy
  \<^verbatim>\<open>sqlLab.unsavedQueryEditor\<close>, as it is, if the browser's state is merged and that
  value is truthy, and the empty object in every other case: storage item missing,
  empty, without \<^verbatim>\<open>sqlLab\<close>, clean slate, or no (or a falsy) legacy unsaved editor. On
  text that is not JSON the function does not return.
\<close>

theorem unsaved_editor_overlay:
  "(\<forall>m1. foldM (merge_queryEditor unsaved) (server_queryEditors t conf activeTab tabs) legacy = Inr m1
      \<longrightarrow> (\<exists>m2. foldM (merge_queryEditor (JObj [])) (server_queryEditors t conf activeTab tabs) legacy
                  = Inr m2
              \<and> (\<forall>k. (\<forall>y \<in> set legacy. ToString (get y ''id'') = Inr k
                          \<longrightarrow> \<not> strict_eq (get unsaved ''id'') (get y ''id''))
                      \<longrightarrow> lookup m1 k = lookup m2 k)))
   \<and> (\<forall>redux' st. getInitialState e redux b = Inr (redux', st)
        \<longrightarrow> sl_unsavedQueryEditor (st_sqlLab st)
            = (case redux of
                 Parsed d \<Rightarrow>
                   if truthy (get d ''sqlLab'')
                      \<and> \<not> strict_eq (get (get (get d ''sqlLab'') ''queryEditors'') ''length'') (JNum 0)
                      \<and> truthy (get (get d ''sqlLab'') ''unsavedQueryEditor'')
                   then get (get d ''sqlLab'') ''unsavedQueryEditor'' else JObj []
               | _ \<Rightarrow> JObj []))
   \<and> getInitialState e InvalidJSON b = Inl SyntaxError"
proof (intro conjI allI impI)
  fix m1
  let ?server = "server_queryEditors t conf activeTab tabs"
  assume run1: "foldM (merge_queryEditor unsaved) ?server legacy = Inr m1"
  obtain m2 where run2: "foldM (merge_queryEditor (JObj [])) ?server legacy = Inr m2"
    using foldM_merge_queryEditor_same_error [OF run1] by blast
  have "\<forall>k. (\<forall>y \<in> set legacy. ToString (get y ''id'') = Inr k
                          \<longrightarrow> \<not> strict_eq (get unsaved ''id'') (get y ''id''))
                      \<longrightarrow> lookup m1 k = lookup m2 k"
    using foldM_merge_queryEditor_patch_frame [OF run1 run2 server_queryEditors_normal
        server_queryEditors_normal] by blast
  then show "\<exists>m2. foldM (merge_queryEditor (JObj [])) ?server legacy = Inr m2
              \<and> (\<forall>k. (\<forall>y \<in> set legacy. ToString (get y ''id'') = Inr k
                          \<longrightarrow> \<not> strict_eq (get unsaved ''id'') (get y ''id''))
                      \<longrightarrow> lookup m1 k = lookup m2 k)"
    using run2 by blast
next
  fix redux' st
  assume "getInitialState e redux b = Inr (redux', st)"
  then show "sl_unsavedQueryEditor (st_sqlLab st)
            = (case redux of
                 Parsed d \<Rightarrow>
                   if truthy (get d ''sqlLab'')
                      \<and> \<not> strict_eq (get (get (get d ''sqlLab'') ''queryEditors'') ''length'') (JNum 0)
                      \<and> truthy (get (get d ''sqlLab'') ''unsavedQueryEditor'')
                   then get (get d ''sqlLab'') ''unsavedQueryEditor'' else JObj []
               | _ \<Rightarrow> JObj [])"
    by (rule getInitialState_unsaved)
next
  show "getInitialState e InvalidJSON b = Inl SyntaxError" by (simp add: getInitialState_def)
qed

text \<open>
  The instance: legacy editors \<^verbatim>\<open>5\<close> and \<^verbatim>\<open>abc\<close> with the unsaved editor
  \<^verbatim>\<open>{id: "abc", sql: "SELECT 2"}\<close>. Editor 5 is the same with and without the patch, and
  the patch is returned as it is.
\<close>

theorem unsaved_editor_overlay_witness:
  "\<exists>m1 m2 st.
     foldM (merge_queryEditor (JObj [(''id'', JStr ''abc''), (''sql'', JStr ''SELECT 2'')]))
       (server_queryEditors (\<lambda>s. s) [] None [\<lparr> ts_id = 5, ts_label = JStr ''Query 5'' \<rparr>])
       [JObj [(''id'', JStr ''5''), (''name'', JStr ''first'')],
        JObj [(''id'', JStr ''abc''), (''name'', JStr ''second'')]] = Inr m1
     \<and> foldM (merge_queryEditor (JObj []))
       (server_queryEditors (\<lambda>s. s) [] None [\<lparr> ts_id = 5, ts_label = JStr ''Query 5'' \<rparr>])
       [JObj [(''id'', JStr ''5''), (''name'', JStr ''first'')],
        JObj [(''id'', JStr ''abc''), (''name'', JStr ''second'')]] = Inr m2
     \<and> lookup m1 ''5'' = lookup m2 ''5''
     \<and> getInitialState sample_env (Parsed unsaved_example_legacy) sample_bootstrap
         = Inr (Parsed unsaved_example_legacy, st)
     \<and> sl_unsavedQueryEditor (st_sqlLab st)
         = JObj [(''id'', JStr ''abc''), (''sql'', JStr ''SELECT 2'')]"
proof -
  let ?u = "JObj [(''id'', JStr ''abc''), (''sql'', JStr ''SELECT 2'')]"
  let ?server = "server_queryEditors (\<lambda>s. s) [] None [\<lparr> ts_id = 5, ts_label = JStr ''Query 5'' \<rparr>]"
  let ?legacy = "[JObj [(''id'', JStr ''5''), (''name'', JStr ''first'')],
                  JObj [(''id'', JStr ''abc''), (''name'', JStr ''second'')]]"
  note inst = unsaved_editor_overlay [where unsaved = ?u and t = "\<lambda>s. s" and conf = "[]"
      and activeTab = None and tabs = "[\<lparr> ts_id = 5, ts_label = JStr ''Query 5'' \<rparr>]"
      and legacy = ?legacy and e = sample_env and b = sample_bootstrap
      and redux = "Parsed unsaved_example_legacy"]
  have "\<exists>r. foldM (merge_queryEditor ?u) ?server ?legacy = Inr r"
    by (simp add: merge_queryEditor_def eval_simps)
  then obtain m1 where run1: "foldM (merge_queryEditor ?u) ?server ?legacy = Inr m1" by auto
  obtain m2 where run2: "foldM (merge_queryEditor (JObj [])) ?server ?legacy = Inr m2"
    and frame: "\<forall>k. (\<forall>y \<in> set ?legacy. ToString (get y ''id'') = Inr k
                          \<longrightarrow> \<not> strict_eq (get ?u ''id'') (get y ''id''))
                      \<longrightarrow> lookup m1 k = lookup m2 k"
    using inst run1 by blast
  have "\<forall>y \<in> set ?legacy. ToString (get y ''id'') = Inr ''5''
          \<longrightarrow> \<not> strict_eq (get ?u ''id'') (get y ''id'')"
    by (simp add: eval_simps)
  then have same: "lookup m1 ''5'' = lookup m2 ''5''" using frame by blast
  have "\<exists>st. getInitialState sample_env (Parsed unsaved_example_legacy) sample_bootstrap
          = Inr (Parsed unsaved_example_legacy, st)"
    by (simp add: getInitialState_def unsaved_example_legacy_def
      sample_bootstrap_def sample_env_def eval_simps overlay_def
      server_parts_def server_queryEditors_def queryEditor_of_def defaultQueryEditor_def
      server_tables_def assemble_def merge_queryEditor_def Object_values_def
      Number_toString_small_values array_index_small_values Let_def)
  then obtain st where ret: "getInitialState sample_env (Parsed unsaved_example_legacy) sample_bootstrap
          = Inr (Parsed unsaved_example_legacy, st)" by auto
  have "sl_unsavedQueryEditor (st_sqlLab st)
        = (if truthy (get unsaved_example_legacy ''sqlLab'')
              \<and> \<not> strict_eq (get (get (get unsaved_example_legacy ''sqlLab'') ''queryEditors'') ''length'') (JNum 0)
              \<and> truthy (get (get unsaved_example_legacy ''sqlLab'') ''unsavedQueryEditor'')
           then get (get unsaved_example_legacy ''sqlLab'') ''unsavedQueryEditor'' else JObj [])"
    using inst ret by simp
  then have "sl_unsavedQueryEditor (st_sqlLab st) = ?u"
    by (simp add: unsaved_example_legacy_def eval_simps)
  then show ?thesis using run1 run2 same ret by blast
qed

text \<open>
  C9 as stated fails twice. With text that is not JSON in the storage item nothing is
  returned, so no empty \<^verbatim>\<open>unsavedQueryEditor\<close> either. And with legacy editors but no
  legacy \<^verbatim>\<open>unsavedQueryEditor\<close> the returned value is the empty object, not the legacy
  value (\<^verbatim>\<open>undefined\<close>) passed through.
\<close>

theorem unsaved_editor_not_returned:
  "returned_unsaved (getInitialState sample_env InvalidJSON sample_bootstrap) = None
   \<and> get (get (editor_example_legacy (JObj [(''id'', JStr ''5''), (''sql'', JStr ''SELECT 1'')]))
          ''sqlLab'') ''unsavedQueryEditor'' = JUndefined
   \<and> returned_unsaved (getInitialState sample_env
        (Parsed (editor_example_legacy (JObj [(''id'', JStr ''5''), (''sql'', JStr ''SELECT 1'')])))
        sample_bootstrap) = Some (JObj [])"
  by (simp add: returned_unsaved_def getInitialState_def editor_example_legacy_def
      sample_bootstrap_def sample_env_def eval_simps overlay_def
      server_parts_def server_queryEditors_def queryEditor_of_def defaultQueryEditor_def
      server_tables_def assemble_def merge_queryEditor_def Object_values_def
      Number_toString_small_values array_index_small_values Let_def)

section \<open>The order of the returned editors and tables\<close>

lemma first_occurrences_Nil [simp]: "first_occurrences [] = []"
  by (simp add: first_occurrences_def)

lemma first_occurrences_snoc:
  "first_occurrences (ks @ [k]) = (if k \<in> set ks then first_occurrences ks else first_occurrences ks @ [k])"
  by (simp add: first_occurrences_def)

lemma set_first_occurrences [simp]: "set (first_occurrences ks) = set ks"
  by (simp add: first_occurrences_def)

lemma distinct_first_occurrences [simp]: "distinct (first_occurrences ks)"
  by (simp add: first_occurrences_def)

lemma first_occurrences_distinct: "distinct ks \<Longrightarrow> first_occurrences ks = ks"
  by (simp add: first_occurrences_def distinct_remdups_id)

lemma first_occurrences_absorb:
  "first_occurrences (first_occurrences a @ b) = first_occurrences (a @ b)"
proof (induction b rule: rev_induct)
  case Nil
  then show ?case by (simp add: first_occurrences_distinct)
next
  case (snoc k b)
  have "first_occurrences ((first_occurrences a @ b) @ [k]) = first_occurrences ((a @ b) @ [k])"
    using snoc by (simp only: first_occurrences_snoc) simp
  then show ?case by simp
qed

lemma normal_index_first:
  "sorted_wrt ordered ks \<Longrightarrow>
   ks = filter (\<lambda>k. array_index k \<noteq> None) ks @ filter (\<lambda>k. array_index k = None) ks"
proof (induction ks)
  case Nil
  then show ?case by simp
next
  case (Cons k ks)
  show ?case
  proof (cases "array_index k")
    case None
    then have "\<forall>y \<in> set ks. array_index y = None"
      using Cons.prems by (auto simp: ordered_def)
    then have "filter (\<lambda>k. array_index k \<noteq> None) ks = []" "filter (\<lambda>k. array_index k = None) ks = ks"
      by (simp_all add: filter_empty_conv filter_id_conv)
    then show ?thesis using None by simp
  next
    case (Some i)
    then show ?thesis using Cons by simp
  qed
qed

lemma index_keys_dec:
  "map dec (List.map_filter array_index ks) = filter (\<lambda>k. array_index k \<noteq> None) ks"
proof (induction ks)
  case Nil
  then show ?case by (simp add: List.map_filter_simps)
next
  case (Cons k ks)
  then show ?case
    by (cases "array_index k") (auto simp: List.map_filter_simps dest: array_index_SomeD)
qed

lemma set_map_filter_array_index:
  "set (List.map_filter array_index ks) = {i. \<exists>k \<in> set ks. array_index k = Some i}"
  by (induction ks) (auto simp: List.map_filter_simps split: option.splits)

lemma normal_indices_sorted:
  "sorted_wrt ordered ks \<Longrightarrow> sorted_wrt (<) (List.map_filter array_index ks)"
proof (induction ks)
  case Nil
  then show ?case by (simp add: List.map_filter_simps)
next
  case (Cons k ks)
  show ?case
  proof (cases "array_index k")
    case None
    then show ?thesis using Cons by (simp add: List.map_filter_simps)
  next
    case (Some i)
    have "\<forall>j \<in> set (List.map_filter array_index ks). i < j"
      using Cons.prems Some by (auto simp: set_map_filter_array_index ordered_def)
    then show ?thesis using Cons Some by (simp add: List.map_filter_simps)
  qed
qed

lemma enumeration_unique:
  assumes "normal m" "set (map fst m) = set ks"
    and "filter (\<lambda>k. array_index k = None) (map fst m)
         = first_occurrences (filter (\<lambda>k. array_index k = None) ks)"
  shows "map fst m = enumeration_order ks"
proof -
  let ?I = "List.map_filter array_index (map fst m)"
  let ?J = "sort (remdups (List.map_filter array_index ks))"
  have sorted: "sorted_wrt (<) ?I"
    using assms(1) by (simp add: normal_def normal_indices_sorted)
  have "set ?I = set ?J"
    using assms(2) by (simp add: set_map_filter_array_index)
  then have "?I = ?J"
    using sorted by (intro sorted_distinct_set_unique) (simp_all add: strict_sorted_iff)
  then have "filter (\<lambda>k. array_index k \<noteq> None) (map fst m) = map dec ?J"
    using index_keys_dec [of "map fst m"] by simp
  then show ?thesis
    using normal_index_first [of "map fst m"] assms(1,3)
    by (simp add: normal_def enumeration_order_def)
qed

lemma nonindex_put:
  "filter (\<lambda>k. array_index k = None) (map fst (put k v m))
   = (if array_index k = None \<and> k \<notin> fst ` set m
      then filter (\<lambda>k. array_index k = None) (map fst m) @ [k]
      else filter (\<lambda>k. array_index k = None) (map fst m))"
proof (induction m)
  case Nil
  then show ?case by simp
next
  case (Cons p ps)
  obtain k' v' where p: "p = (k', v')" by (cases p)
  show ?case
  proof (cases "array_index k")
    case None
    then have "\<not> goes_before k k'" by (simp add: goes_before_def)
    then show ?thesis using Cons None by (auto simp: p)
  next
    case (Some i)
    then show ?thesis using Cons by (auto simp: p)
  qed
qed

lemma foldM_snoc:
  "foldM f s (xs @ [x]) = (case foldM f s xs of Inl e \<Rightarrow> Inl e | Inr s' \<Rightarrow> f s' x)"
  by (simp add: foldM_append split: sum.splits)

lemma foldM_put_keys:
  fixes proj :: "'s \<Rightarrow> obj" and key :: "'a \<Rightarrow> string"
  assumes step: "\<And>s x s'. x \<in> set xs \<Longrightarrow> normal (proj s) \<Longrightarrow> f s x = Inr s'
                   \<Longrightarrow> \<exists>v. proj s' = put (key x) v (proj s)"
    and n0: "normal (proj s0)"
    and run: "foldM f s0 xs = Inr s"
  shows "normal (proj s)
       \<and> set (map fst (proj s)) = set (map fst (proj s0)) \<union> key ` set xs
       \<and> filter (\<lambda>k. array_index k = None) (map fst (proj s))
         = first_occurrences (filter (\<lambda>k. array_index k = None) (map fst (proj s0) @ map key xs))"
  using step run
proof (induction xs arbitrary: s rule: rev_induct)
  case Nil
  then show ?case
    using n0 normal_distinct [OF n0] by (simp add: first_occurrences_distinct distinct_map_filter)
next
  case (snoc x xs)
  from snoc.prems(2) obtain s1 where run1: "foldM f s0 xs = Inr s1" and last: "f s1 x = Inr s"
    by (auto simp: foldM_snoc split: sum.splits)
  have IH: "normal (proj s1)
       \<and> set (map fst (proj s1)) = set (map fst (proj s0)) \<union> key ` set xs
       \<and> filter (\<lambda>k. array_index k = None) (map fst (proj s1))
         = first_occurrences (filter (\<lambda>k. array_index k = None) (map fst (proj s0) @ map key xs))"
    using snoc.IH [OF _ run1] snoc.prems(1) by simp
  obtain v where s: "proj s = put (key x) v (proj s1)"
    using snoc.prems(1) [of x s1 s] IH last by auto
  have keys: "fst ` set (proj s1) = set (map fst (proj s0)) \<union> key ` set xs"
    using IH by simp
  have "filter (\<lambda>k. array_index k = None) (map fst (proj s))
         = first_occurrences (filter (\<lambda>k. array_index k = None) (map fst (proj s0) @ map key (xs @ [x])))"
  proof (cases "array_index (key x)")
    case None
    let ?X = "filter (\<lambda>k. array_index k = None) (map fst (proj s0) @ map key xs)"
    have mem: "key x \<in> fst ` set (proj s1) \<longleftrightarrow> key x \<in> set ?X"
      using None keys by auto
    have target: "filter (\<lambda>k. array_index k = None) (map fst (proj s0) @ map key (xs @ [x]))
                  = ?X @ [key x]"
      using None by simp
    have "filter (\<lambda>k. array_index k = None) (map fst (proj s))
          = (if key x \<in> fst ` set (proj s1) then first_occurrences ?X
             else first_occurrences ?X @ [key x])"
      using IH None by (simp add: s nonindex_put)
    also have "\<dots> = first_occurrences (?X @ [key x])"
      by (simp only: first_occurrences_snoc mem)
    finally show ?thesis by (simp only: target)
  next
    case (Some i)
    then show ?thesis using IH by (simp add: s nonindex_put)
  qed
  moreover have "normal (proj s)" using IH by (simp add: s normal_put)
  moreover have "set (map fst (proj s)) = set (map fst (proj s0)) \<union> key ` set (xs @ [x])"
    using keys by (auto simp: s keys_put)
  ultimately show ?case by blast
qed

lemma foldl_as_foldM: "foldM (\<lambda>s x. Inr (g s x)) s xs = Inr (foldl g s xs)"
  by (induction xs arbitrary: s) simp_all

lemma legacy_key_Inr: "ToString (get x ''id'') = Inr k \<Longrightarrow> legacy_key x = k"
  by (simp add: legacy_key_def)

lemma server_queryEditors_keys:
  "map fst (server_queryEditors t conf activeTab tabs)
   = enumeration_order (map (\<lambda>tab. Number_toString (ts_id tab)) tabs)"
proof -
  let ?g = "\<lambda>queryEditors tab.
         put (Number_toString (ts_id tab)) (JObj (queryEditor_of t conf activeTab tab))
           (spread [] (JObj queryEditors))"
  have run: "foldM (\<lambda>s x. Inr (?g s x)) [] tabs = Inr (server_queryEditors t conf activeTab tabs)"
    by (simp add: foldl_as_foldM server_queryEditors_def)
  have step: "\<exists>v. s' = put (Number_toString (ts_id x)) v s"
    if "normal s" "Inr (?g s x) = (Inr s' :: error + obj)" for s x s'
    using that by (auto simp: spread_Nil_normal)
  have n0: "normal ([] :: obj)" by simp
  show ?thesis
    using foldM_put_keys [where proj = "\<lambda>m. m" and f = "\<lambda>s x. Inr (?g s x)"
        and key = "\<lambda>tab. Number_toString (ts_id tab)", OF step n0 run]
    by (intro enumeration_unique) simp_all
qed

lemma server_tables_keys_order:
  "map fst (server_tables (Some a))
   = enumeration_order (map (\<lambda>s. Number_toString (tsc_id s))
       (filter (\<lambda>s. tsc_description s \<noteq> None) (at_table_schemas a)))"
proof -
  let ?xs = "filter (\<lambda>s. tsc_description s \<noteq> None) (at_table_schemas a)"
  let ?g = "\<lambda>tables tableSchema.
              (case tsc_description tableSchema of
                 None \<Rightarrow> tables
               | Some description \<Rightarrow>
                   put (Number_toString (tsc_id tableSchema))
                     (JObj (table_of tableSchema description))
                     (spread [] (JObj tables)))"
  have run: "foldM (\<lambda>s x. Inr (?g s x)) [] ?xs = Inr (server_tables (Some a))"
    by (simp add: foldl_as_foldM server_tables_def)
  have step: "\<exists>v. s' = put (Number_toString (tsc_id x)) v s"
    if "x \<in> set ?xs" "normal s" "Inr (?g s x) = (Inr s' :: error + obj)" for s x s'
    using that by (auto simp: spread_Nil_normal)
  have n0: "normal ([] :: obj)" by simp
  show ?thesis
    using foldM_put_keys [where proj = "\<lambda>m. m" and f = "\<lambda>s x. Inr (?g s x)"
        and key = "\<lambda>s. Number_toString (tsc_id s)", OF step n0 run]
    by (intro enumeration_unique) simp_all
qed

lemma enumeration_order_Nil [simp]: "enumeration_order [] = []"
  by (simp add: enumeration_order_def List.map_filter_simps)

lemma set_enumeration_order: "set (enumeration_order ks) = set ks"
proof -
  have "set (map dec (List.map_filter array_index ks)) = {k \<in> set ks. array_index k \<noteq> None}"
    by (simp add: index_keys_dec)
  then have "dec ` {i. \<exists>k \<in> set ks. array_index k = Some i} = {k \<in> set ks. array_index k \<noteq> None}"
    by (simp add: set_map_filter_array_index)
  then show ?thesis by (auto simp: enumeration_order_def set_map_filter_array_index)
qed

lemma nonindex_enumeration_order:
  "filter (\<lambda>k. array_index k = None) (enumeration_order ks)
   = first_occurrences (filter (\<lambda>k. array_index k = None) ks)"
proof -
  let ?I = "map dec (sort (remdups (List.map_filter array_index ks)))"
  let ?S = "first_occurrences (filter (\<lambda>k. array_index k = None) ks)"
  have "\<forall>k \<in> set ?I. array_index k \<noteq> None"
    by (auto simp: set_map_filter_array_index array_index_dec dest!: array_index_SomeD)
  then have a: "filter (\<lambda>k. array_index k = None) ?I = []"
    by (simp only: filter_empty_conv)
  have "\<forall>k \<in> set ?S. array_index k = None" by simp
  then have b: "filter (\<lambda>k. array_index k = None) ?S = ?S"
    by (simp only: filter_id_conv)
  have "filter (\<lambda>k. array_index k = None) (?I @ ?S) = ?S"
    by (simp only: filter_append a b append_Nil)
  then show ?thesis by (simp only: enumeration_order_def)
qed

lemma overlay_keys:
  fixes proj :: "'s \<Rightarrow> obj"
  assumes step: "\<And>s x s'. x \<in> set xs \<Longrightarrow> normal (proj s) \<Longrightarrow> f s x = Inr s'
                   \<Longrightarrow> \<exists>v. proj s' = put (legacy_key x) v (proj s)"
    and n0: "normal (proj s0)"
    and k0: "map fst (proj s0) = enumeration_order ks0"
    and run: "foldM f s0 xs = Inr s"
  shows "normal (proj s) \<and> map fst (proj s) = enumeration_order (ks0 @ map legacy_key xs)"
proof -
  let ?N = "\<lambda>k. array_index k = None"
  have keys: "normal (proj s)
       \<and> set (map fst (proj s)) = set (map fst (proj s0)) \<union> legacy_key ` set xs
       \<and> filter ?N (map fst (proj s))
         = first_occurrences (filter ?N (map fst (proj s0) @ map legacy_key xs))"
    by (rule foldM_put_keys [where proj = proj and key = legacy_key and f = f, OF step n0 run])
  have "filter ?N (map fst (proj s))
        = first_occurrences (filter ?N (enumeration_order ks0) @ filter ?N (map legacy_key xs))"
    using keys by (simp only: k0 filter_append)
  also have "\<dots> = first_occurrences (first_occurrences (filter ?N ks0) @ filter ?N (map legacy_key xs))"
    by (simp only: nonindex_enumeration_order)
  also have "\<dots> = first_occurrences (filter ?N ks0 @ filter ?N (map legacy_key xs))"
    by (rule first_occurrences_absorb)
  finally have a: "filter ?N (map fst (proj s))
        = first_occurrences (filter ?N (ks0 @ map legacy_key xs))"
    by (simp only: filter_append)
  have "set (map fst (proj s)) = set (enumeration_order ks0) \<union> legacy_key ` set xs"
    using keys by (simp only: k0)
  then have b: "set (map fst (proj s)) = set (ks0 @ map legacy_key xs)"
    by (simp only: set_enumeration_order set_append set_map)
  have "normal (proj s)" using keys by blast
  then show ?thesis using enumeration_unique [OF _ b a] by blast
qed

lemma overlay_editor_keys:
  assumes "foldM (merge_queryEditor u) m0 xs = Inr m" "normal m0" "map fst m0 = enumeration_order ks0"
  shows "normal m \<and> map fst m = enumeration_order (ks0 @ map legacy_key xs)"
proof -
  have step: "\<exists>v. s' = put (legacy_key x) v s"
    if "normal s" "merge_queryEditor u s x = Inr s'" for s x s'
    using that by (auto simp: merge_queryEditor_Inr spread_Nil_normal legacy_key_Inr)
  show ?thesis
    using overlay_keys [where proj = "\<lambda>m. m" and f = "merge_queryEditor u", OF step assms(2,3,1)]
    by simp
qed

lemma overlay_table_keys:
  assumes "foldM (merge_table T) (seen0, m0) xs = Inr (seen, m)" "normal m0"
    "map fst m0 = enumeration_order ks0"
  shows "normal m \<and> map fst m = enumeration_order (ks0 @ map legacy_key xs)"
proof -
  have step: "\<exists>v. snd s' = put (legacy_key x) v (snd s)"
    if "normal (snd s)" "merge_table T s x = Inr s'" for s x s'
    using that by (cases s) (auto simp: merge_table_Inr spread_Nil_normal legacy_key_Inr)
  show ?thesis
    using overlay_keys [where proj = snd and f = "merge_table T" and ?s0.0 = "(seen0, m0)"
        and s = "(seen, m)", OF step _ _ assms(1)] assms(2,3)
    by simp
qed

lemma first_occurrences_append:
  "first_occurrences (a @ b)
   = first_occurrences a @ first_occurrences (filter (\<lambda>k. k \<notin> set a) b)"
proof -
  have "remdups (xs @ ys) = remdups (filter (\<lambda>k. k \<notin> set ys) xs) @ remdups ys"
    for xs ys :: "string list"
    by (induction xs) auto
  from this [of "rev b" "rev a"]
  have "remdups (rev b @ rev a) = remdups (filter (\<lambda>k. k \<notin> set (rev a)) (rev b)) @ remdups (rev a)" .
  then show ?thesis by (simp add: first_occurrences_def rev_filter)
qed

lemma map_filter_append: "List.map_filter f (a @ b) = List.map_filter f a @ List.map_filter f b"
  by (simp add: List.map_filter_def)

lemma ascending_indices_keys:
  assumes "ascending_indices a"
  shows "map dec (List.map_filter array_index a) = a"
  using assms unfolding ascending_indices_def
proof (induction a)
  case Nil
  then show ?case by (simp add: List.map_filter_simps)
next
  case (Cons k a)
  then obtain i where i: "array_index k = Some i" by auto
  have "sorted_wrt (<) (List.map_filter array_index a)"
    using Cons.prems i by (simp add: List.map_filter_simps)
  then have "map dec (List.map_filter array_index a) = a" using Cons by simp
  then show ?case using i array_index_SomeD [OF i] by (simp add: List.map_filter_simps)
qed

lemma enumeration_order_insertion:
  assumes asc: "ascending_indices a"
    and new: "\<forall>k \<in> set b. array_index k = None \<or> k \<in> set a"
  shows "enumeration_order (a @ b) = first_occurrences (a @ b)"
proof -
  let ?I = "List.map_filter array_index"
  let ?N = "\<lambda>k. array_index k = None"
  have all: "\<forall>k \<in> set a. array_index k \<noteq> None"
    using asc by (simp add: ascending_indices_def list_all_iff)
  have sorted: "sorted_wrt (<) (?I a)" using asc by (simp add: ascending_indices_def)
  have "set (?I b) \<subseteq> set (?I a)"
    using new by (auto simp: set_map_filter_array_index)
  then have "set (remdups (?I (a @ b))) = set (?I a)"
    by (auto simp: map_filter_append)
  moreover have "sorted (?I a)" "distinct (?I a)"
    using sorted by (simp_all add: strict_sorted_iff)
  ultimately have "sort (remdups (?I (a @ b))) = ?I a"
    by (intro sorted_distinct_set_unique) simp_all
  then have idx: "map dec (sort (remdups (?I (a @ b)))) = a"
    using ascending_indices_keys [OF asc] by simp
  have "filter ?N a = []" using all by (simp add: filter_empty_conv)
  moreover have "filter ?N b = filter (\<lambda>k. k \<notin> set a) b"
    using new all by (intro filter_cong) auto
  ultimately have rest: "filter ?N (a @ b) = filter (\<lambda>k. k \<notin> set a) b" by simp
  have "inj_on dec (set (?I a))" by (auto intro!: inj_onI dest: dec_inj)
  then have "distinct (map dec (?I a))" using \<open>distinct (?I a)\<close> by (simp add: distinct_map)
  then have "distinct a" by (simp only: ascending_indices_keys [OF asc])
  then have "first_occurrences a = a" by (rule first_occurrences_distinct)
  then show ?thesis
    unfolding enumeration_order_def idx rest by (simp add: first_occurrences_append)
qed

lemma overlay_Inr:
  assumes "overlay sqlLab (u0, qe0, t0, q0, h0) = Inr (u, qe, t, q, h)"
  shows "foldM (merge_queryEditor u) qe0 (legacy_list (Some sqlLab) ''queryEditors'') = Inr qe
       \<and> (\<exists>seen. foldM (merge_table t0) ([], t0) (legacy_list (Some sqlLab) ''tables'') = Inr (seen, t))
       \<and> h = h0 @ legacy_history (Some sqlLab)"
  using assms
  by (auto simp: overlay_def and_then_def Let_def legacy_list_def legacy_history_def
      split: sum.splits if_splits)

lemma getInitialState_returns:
  assumes "getInitialState e redux b = Inr (redux', st)"
  shows "case merged_legacy redux of
           None \<Rightarrow> st = assemble e b (server_parts e b)
         | Some sqlLab \<Rightarrow>
             (\<exists>parts. overlay sqlLab (server_parts e b) = Inr parts \<and> st = assemble e b parts)"
proof (cases redux)
  case Missing
  then show ?thesis using assms by (auto simp: getInitialState_def merged_legacy_def)
next
  case EmptyText
  then show ?thesis using assms by (auto simp: getInitialState_def merged_legacy_def)
next
  case InvalidJSON
  then show ?thesis using assms by (simp add: getInitialState_def)
next
  case (Parsed d)
  show ?thesis
  proof (cases "truthy (get d ''sqlLab'')")
    case False
    then show ?thesis
      using assms Parsed by (auto simp: getInitialState_no_sqlLab merged_legacy_def)
  next
    case True
    note eq = assms [unfolded Parsed getInitialState_sqlLab [OF True]]
    show ?thesis
    proof (cases "strict_eq (get (get (get d ''sqlLab'') ''queryEditors'') ''length'') (JNum 0)")
      case zero: True
      then show ?thesis
        using eq Parsed True
        by (auto simp: and_then_def access_def merged_legacy_def split: sum.splits if_splits)
    next
      case nonzero: False
      then show ?thesis
        using eq Parsed True
        by (auto simp: and_then_def access_def merged_legacy_def split: sum.splits if_splits)
    qed
  qed
qed

lemma server_parts_eq:
  "server_parts e b
   = (JObj [],
      server_queryEditors (translate e) (bd_conf b) (bd_active_tab b) (server_tabs b),
      server_tables (bd_active_tab b),
      spread [] (bd_queries b),
      server_history b)"
  by (simp add: server_parts_def Let_def server_tabs_def server_history_def)

lemma server_tables_keys_enumeration:
  "map fst (server_tables (bd_active_tab b)) = enumeration_order (server_table_keys b)"
proof (cases "bd_active_tab b")
  case None
  then show ?thesis by (simp add: server_tables_def server_table_keys_def)
next
  case (Some a)
  then show ?thesis by (simp add: server_tables_keys_order server_table_keys_def)
qed

lemma assemble_sequences:
  assumes "normal qe" "normal t"
  shows "sl_queryEditors (st_sqlLab (assemble e b (u, qe, t, q, h))) = map snd qe"
    and "sl_tables (st_sqlLab (assemble e b (u, qe, t, q, h))) = map snd t"
    and "sl_tabHistory (st_sqlLab (assemble e b (u, qe, t, q, h))) = dedupeTabHistory h"
    and "sl_unsavedQueryEditor (st_sqlLab (assemble e b (u, qe, t, q, h))) = u"
  using assms by (simp_all add: assemble_def literal_normal)

lemma assemble_constants:
  "sl_activeSouthPaneTab (st_sqlLab (assemble e b parts)) = ''Results''"
  "\<not> sl_offline (st_sqlLab (assemble e b parts))"
  "st_localStorageUsageInKilobytes (assemble e b parts) = 0"
  "sl_alerts (st_sqlLab (assemble e b parts)) = []"
  "sl_queryCostEstimates (st_sqlLab (assemble e b parts)) = []"
  by (simp_all add: assemble_def split: prod.splits)

lemma getInitialState_parts:
  assumes "getInitialState e redux b = Inr (redux', st)"
  shows "\<exists>u qe seen t q.
           st = assemble e b (u, qe, t, q, server_history b @ legacy_history (merged_legacy redux))
         \<and> foldM (merge_queryEditor u)
             (server_queryEditors (translate e) (bd_conf b) (bd_active_tab b) (server_tabs b))
             (legacy_list (merged_legacy redux) ''queryEditors'') = Inr qe
         \<and> foldM (merge_table (server_tables (bd_active_tab b)))
             ([], server_tables (bd_active_tab b))
             (legacy_list (merged_legacy redux) ''tables'') = Inr (seen, t)"
proof (cases "merged_legacy redux")
  case None
  then have "st = assemble e b (server_parts e b)"
    using getInitialState_returns [OF assms] by simp
  then show ?thesis
    using None by (auto simp: server_parts_eq legacy_list_def legacy_history_def)
next
  case (Some sqlLab)
  then obtain parts where ov: "overlay sqlLab (server_parts e b) = Inr parts"
    and st: "st = assemble e b parts"
    using getInitialState_returns [OF assms] by auto
  obtain u qe t q h where parts: "parts = (u, qe, t, q, h)" by (cases parts) auto
  obtain seen where
    "foldM (merge_queryEditor u)
       (server_queryEditors (translate e) (bd_conf b) (bd_active_tab b) (server_tabs b))
       (legacy_list (Some sqlLab) ''queryEditors'') = Inr qe"
    "foldM (merge_table (server_tables (bd_active_tab b)))
       ([], server_tables (bd_active_tab b))
       (legacy_list (Some sqlLab) ''tables'') = Inr (seen, t)"
    "h = server_history b @ legacy_history (Some sqlLab)"
    using overlay_Inr [OF ov [unfolded server_parts_eq parts]] by blast
  then show ?thesis
    unfolding Some st parts by blast
qed

text \<open>
  C6, as the code has it. Whenever the function returns, the returned \<^verbatim>\<open>queryEditors\<close>
  and \<^verbatim>\<open>tables\<close> are the values of the two mappings the loops leave (the server's entries
  overlaid with the legacy ones, the editors with the returned unsaved editor as patch),
  listed in the enumeration order of the keys: the keys that are array indices first, in
  ascending numeric order, then the other keys in the order of their first definition,
  server entries before legacy ones. This is the order of first insertion, server
  entries first and then the newly introduced legacy ones, whenever the server's keys
  are array indices in ascending order and every legacy key is either no array index or
  the key of a server entry. The returned \<^verbatim>\<open>tabHistory\<close> is \<open>dedupeTabHistory\<close> of the id of
  the active tab, if any, followed by the legacy tab history in order. And
  \<^verbatim>\<open>activeSouthPaneTab\<close> is \<^verbatim>\<open>Results\<close>, \<^verbatim>\<open>offline\<close> is false,
  \<^verbatim>\<open>localStorageUsageInKilobytes\<close> is 0, \<^verbatim>\<open>alerts\<close> is the empty list and
  \<^verbatim>\<open>queryCostEstimates\<close> the empty mapping.
\<close>

theorem assembly_order:
  assumes ret: "getInitialState e redux b = Inr (redux', st)"
  shows "\<exists>queryEditors expandedTables tables.
       foldM (merge_queryEditor (sl_unsavedQueryEditor (st_sqlLab st)))
         (server_queryEditors (translate e) (bd_conf b) (bd_active_tab b) (server_tabs b))
         (legacy_list (merged_legacy redux) ''queryEditors'') = Inr queryEditors
     \<and> sl_queryEditors (st_sqlLab st) = map snd queryEditors
     \<and> map fst queryEditors
         = enumeration_order
             (server_editor_keys b @ map legacy_key (legacy_list (merged_legacy redux) ''queryEditors''))
     \<and> (ascending_indices (server_editor_keys b)
          \<and> (\<forall>qe \<in> set (legacy_list (merged_legacy redux) ''queryEditors'').
                array_index (legacy_key qe) = None \<or> legacy_key qe \<in> set (server_editor_keys b))
        \<longrightarrow> map fst queryEditors
            = first_occurrences
                (server_editor_keys b
                 @ map legacy_key (legacy_list (merged_legacy redux) ''queryEditors'')))
     \<and> foldM (merge_table (server_tables (bd_active_tab b)))
         ([], server_tables (bd_active_tab b))
         (legacy_list (merged_legacy redux) ''tables'') = Inr (expandedTables, tables)
     \<and> sl_tables (st_sqlLab st) = map snd tables
     \<and> map fst tables
         = enumeration_order
             (server_table_keys b @ map legacy_key (legacy_list (merged_legacy redux) ''tables''))
     \<and> (ascending_indices (server_table_keys b)
          \<and> (\<forall>table \<in> set (legacy_list (merged_legacy redux) ''tables'').
                array_index (legacy_key table) = None \<or> legacy_key table \<in> set (server_table_keys b))
        \<longrightarrow> map fst tables
            = first_occurrences
                (server_table_keys b @ map legacy_key (legacy_list (merged_legacy redux) ''tables'')))
     \<and> sl_tabHistory (st_sqlLab st)
         = dedupeTabHistory (server_history b @ legacy_history (merged_legacy redux))
     \<and> sl_activeSouthPaneTab (st_sqlLab st) = ''Results''
     \<and> \<not> sl_offline (st_sqlLab st)
     \<and> st_localStorageUsageInKilobytes st = 0
     \<and> sl_alerts (st_sqlLab st) = []
     \<and> sl_queryCostEstimates (st_sqlLab st) = []"
proof -
  let ?editors = "legacy_list (merged_legacy redux) ''queryEditors''"
  let ?tables = "legacy_list (merged_legacy redux) ''tables''"
  let ?qe0 = "server_queryEditors (translate e) (bd_conf b) (bd_active_tab b) (server_tabs b)"
  let ?t0 = "server_tables (bd_active_tab b)"
  obtain u qe seen t q
    where st: "st = assemble e b (u, qe, t, q, server_history b @ legacy_history (merged_legacy redux))"
      and run_qe: "foldM (merge_queryEditor u) ?qe0 ?editors = Inr qe"
      and run_t: "foldM (merge_table ?t0) ([], ?t0) ?tables = Inr (seen, t)"
    using getInitialState_parts [OF ret] by blast
  have k0: "map fst ?qe0 = enumeration_order (server_editor_keys b)"
    by (simp only: server_queryEditors_keys server_editor_keys_def)
  have qe: "normal qe"
    "map fst qe = enumeration_order (server_editor_keys b @ map legacy_key ?editors)"
    using overlay_editor_keys [OF run_qe server_queryEditors_normal k0] by blast+
  have t: "normal t"
    "map fst t = enumeration_order (server_table_keys b @ map legacy_key ?tables)"
    using overlay_table_keys [OF run_t server_tables_normal server_tables_keys_enumeration]
    by blast+
  have qe_ins: "map fst qe = first_occurrences (server_editor_keys b @ map legacy_key ?editors)"
    if "ascending_indices (server_editor_keys b)"
      "\<forall>x \<in> set ?editors. array_index (legacy_key x) = None \<or> legacy_key x \<in> set (server_editor_keys b)"
  proof -
    have "\<forall>k \<in> set (map legacy_key ?editors). array_index k = None \<or> k \<in> set (server_editor_keys b)"
      using that(2) by simp
    then show ?thesis using enumeration_order_insertion [OF that(1)] qe(2) by simp
  qed
  have t_ins: "map fst t = first_occurrences (server_table_keys b @ map legacy_key ?tables)"
    if "ascending_indices (server_table_keys b)"
      "\<forall>x \<in> set ?tables. array_index (legacy_key x) = None \<or> legacy_key x \<in> set (server_table_keys b)"
  proof -
    have "\<forall>k \<in> set (map legacy_key ?tables). array_index k = None \<or> k \<in> set (server_table_keys b)"
      using that(2) by simp
    then show ?thesis using enumeration_order_insertion [OF that(1)] t(2) by simp
  qed
  note seqs = assemble_sequences [OF qe(1) t(1), of e b u q
      "server_history b @ legacy_history (merged_legacy redux)", folded st]
  have "foldM (merge_queryEditor (sl_unsavedQueryEditor (st_sqlLab st))) ?qe0 ?editors = Inr qe"
    using run_qe by (simp only: seqs(4))
  moreover have "sl_queryEditors (st_sqlLab st) = map snd qe" by (rule seqs(1))
  moreover have "sl_tables (st_sqlLab st) = map snd t" by (rule seqs(2))
  moreover have "sl_tabHistory (st_sqlLab st)
      = dedupeTabHistory (server_history b @ legacy_history (merged_legacy redux))"
    by (rule seqs(3))
  moreover have "sl_activeSouthPaneTab (st_sqlLab st) = ''Results''"
    "\<not> sl_offline (st_sqlLab st)" "st_localStorageUsageInKilobytes st = 0"
    "sl_alerts (st_sqlLab st) = []" "sl_queryCostEstimates (st_sqlLab st) = []"
    unfolding st by (rule assemble_constants)+
  ultimately show ?thesis using qe(2) t(2) qe_ins t_ins run_t by blast
qed

lemma assembly_example_parts:
  "merged_legacy (Parsed assembly_example_legacy) = Some (get assembly_example_legacy ''sqlLab'')"
  "legacy_list (Some (get assembly_example_legacy ''sqlLab'')) ''queryEditors''
     = [JObj [(''id'', JStr ''abc''), (''name'', JStr ''legacy'')],
        JObj [(''id'', JStr ''5''), (''name'', JStr ''Query 5'')]]"
  "legacy_list (Some (get assembly_example_legacy ''sqlLab'')) ''tables''
     = [JObj [(''id'', JStr ''t1''), (''queryEditorId'', JStr ''abc'')]]"
  "legacy_history (Some (get assembly_example_legacy ''sqlLab''))
     = [JStr ''abc'', JStr ''abc'', JStr ''5'']"
  by (simp_all add: merged_legacy_def legacy_list_def legacy_history_def
      assembly_example_legacy_def eval_simps)

lemma assembly_example_keys:
  "server_editor_keys sample_bootstrap = [''5'']"
  "server_table_keys sample_bootstrap = []"
  "server_history sample_bootstrap = []"
  "legacy_key (JObj [(''id'', JStr ''abc''), (''name'', JStr ''legacy'')]) = ''abc''"
  "legacy_key (JObj [(''id'', JStr ''5''), (''name'', JStr ''Query 5'')]) = ''5''"
  "legacy_key (JObj [(''id'', JStr ''t1''), (''queryEditorId'', JStr ''abc'')]) = ''t1''"
  by (simp_all add: server_editor_keys_def server_table_keys_def server_history_def
      server_tabs_def sample_bootstrap_def legacy_key_def eval_simps
      Number_toString_small_values)

lemma assembly_example_orders:
  "enumeration_order [''5'', ''abc'', ''5''] = [''5'', ''abc'']"
  "enumeration_order [''t1''] = [''t1'']"
  by (simp_all add: enumeration_order_def first_occurrences_def List.map_filter_simps
      array_index_small_values array_index_nondigit_hd is_digit_def dec_small_values)

text \<open>
  The instance: the server's tab 5 with legacy editors \<^verbatim>\<open>abc\<close> and \<^verbatim>\<open>5\<close>, legacy table
  \<^verbatim>\<open>t1\<close> and legacy tab history \<^verbatim>\<open>["abc", "abc", "5"]\<close>. The editors come out as 5, abc,
  the tables as t1, the tab history as \<^verbatim>\<open>["abc", "5"]\<close>.
\<close>

theorem assembly_order_witness:
  "\<exists>st queryEditors tables.
     getInitialState sample_env (Parsed assembly_example_legacy) sample_bootstrap
       = Inr (Parsed assembly_example_legacy, st)
     \<and> sl_queryEditors (st_sqlLab st) = map snd queryEditors
     \<and> map fst queryEditors = [''5'', ''abc'']
     \<and> sl_tables (st_sqlLab st) = map snd tables
     \<and> map fst tables = [''t1'']
     \<and> sl_tabHistory (st_sqlLab st) = [JStr ''abc'', JStr ''5'']
     \<and> sl_activeSouthPaneTab (st_sqlLab st) = ''Results''
     \<and> \<not> sl_offline (st_sqlLab st)
     \<and> st_localStorageUsageInKilobytes st = 0
     \<and> sl_alerts (st_sqlLab st) = []
     \<and> sl_queryCostEstimates (st_sqlLab st) = []"
proof -
  have "\<exists>st. getInitialState sample_env (Parsed assembly_example_legacy) sample_bootstrap
          = Inr (Parsed assembly_example_legacy, st)"
    by (simp add: getInitialState_def assembly_example_legacy_def
      sample_bootstrap_def sample_env_def eval_simps overlay_def
      server_parts_def server_queryEditors_def queryEditor_of_def defaultQueryEditor_def
      server_tables_def assemble_def merge_queryEditor_def merge_table_def Set_has_def
      Object_values_def Number_toString_small_values array_index_small_values Let_def)
  then obtain st where ret: "getInitialState sample_env (Parsed assembly_example_legacy) sample_bootstrap
          = Inr (Parsed assembly_example_legacy, st)" by auto
  have history: "dedupeTabHistory [JStr ''abc'', JStr ''abc'', JStr ''5''] = [JStr ''abc'', JStr ''5'']"
    by (simp add: dedupeTabHistory_def last_elem_def)
  from assembly_order [OF ret] obtain queryEditors expandedTables tables where
    "sl_queryEditors (st_sqlLab st) = map snd queryEditors"
    "map fst queryEditors
       = enumeration_order
           (server_editor_keys sample_bootstrap
            @ map legacy_key (legacy_list (merged_legacy (Parsed assembly_example_legacy)) ''queryEditors''))"
    "sl_tables (st_sqlLab st) = map snd tables"
    "map fst tables
       = enumeration_order
           (server_table_keys sample_bootstrap
            @ map legacy_key (legacy_list (merged_legacy (Parsed assembly_example_legacy)) ''tables''))"
    "sl_tabHistory (st_sqlLab st)
       = dedupeTabHistory (server_history sample_bootstrap
           @ legacy_history (merged_legacy (Parsed assembly_example_legacy)))"
    "sl_activeSouthPaneTab (st_sqlLab st) = ''Results''"
    "\<not> sl_offline (st_sqlLab st)"
    "st_localStorageUsageInKilobytes st = 0"
    "sl_alerts (st_sqlLab st) = []"
    "sl_queryCostEstimates (st_sqlLab st) = []"
    by blast
  then have facts:
    "sl_queryEditors (st_sqlLab st) = map snd queryEditors \<and> map fst queryEditors = [''5'', ''abc'']
     \<and> sl_tables (st_sqlLab st) = map snd tables \<and> map fst tables = [''t1'']
     \<and> sl_tabHistory (st_sqlLab st) = [JStr ''abc'', JStr ''5'']
     \<and> sl_activeSouthPaneTab (st_sqlLab st) = ''Results''
     \<and> \<not> sl_offline (st_sqlLab st)
     \<and> st_localStorageUsageInKilobytes st = 0
     \<and> sl_alerts (st_sqlLab st) = []
     \<and> sl_queryCostEstimates (st_sqlLab st) = []"
    by (simp only: assembly_example_parts assembly_example_keys assembly_example_orders
        history list.map append.simps simp_thms)
  show ?thesis
    by (rule exI [of _ st], rule exI [of _ queryEditors], rule exI [of _ tables],
        rule conjI [OF ret facts])
qed

text \<open>
  C6 as stated fails where a key is an integer: an object enumerates integer keys in
  ascending order, not in insertion order. With the server's tab 5 and the legacy editor
  \<^verbatim>\<open>{id: "3", name: "legacy"}\<close>, which the server does not have, the returned
  \<^verbatim>\<open>queryEditors\<close> list the newly introduced legacy editor 3 before the server's editor
  5. And with \<^verbatim>\<open>tab_state_ids = [{id: 2, ...}, {id: 1, ...}]\<close> and nothing in the browser,
  editor 2 is inserted first and editor 1 second, and editor 1 is returned before
  editor 2.
\<close>

theorem returned_editors_not_in_insertion_order:
  "map (\<lambda>ed. get ed ''id'')
     (returned_editors (getInitialState sample_env Missing sample_bootstrap)) = [JStr ''5'']
   \<and> map (\<lambda>ed. get ed ''id'')
       (returned_editors (getInitialState sample_env
          (Parsed (editor_example_legacy (JObj [(''id'', JStr ''3''), (''name'', JStr ''legacy'')])))
          sample_bootstrap))
     = [JStr ''3'', JStr ''5'']
   \<and> map (\<lambda>tab. Number_toString (ts_id tab)) (server_tabs reversed_tabs_bootstrap) = [''2'', ''1'']
   \<and> map (\<lambda>ed. get ed ''id'')
       (returned_editors (getInitialState sample_env Missing reversed_tabs_bootstrap))
     = [JStr ''1'', JStr ''2'']"
  by (simp add: returned_editors_def getInitialState_def reversed_tabs_bootstrap_def server_tabs_def
      editor_example_legacy_def
      sample_bootstrap_def sample_env_def eval_simps overlay_def
      server_parts_def server_queryEditors_def queryEditor_of_def defaultQueryEditor_def
      server_tables_def assemble_def merge_queryEditor_def Object_values_def
      Number_toString_small_values array_index_small_values Let_def)

end
